theory Spec2Isabelle
  imports Complex_Main "HOL-Library.Stream" "HOL-Library.Multiset"
begin

section \<open>Conventions of the embedding\<close>

text \<open>
  The program is Python. Its \<open>float\<close> values are modelled as \<open>real\<close> numbers (exact
  arithmetic, no binary rounding), its unbounded \<open>int\<close> values as \<open>int\<close> or \<open>nat\<close>,
  its \<open>str\<close> values as \<open>string\<close>. An exception that the code can raise is a value
  \<open>Inl e\<close> of a sum type.
\<close>

datatype error = KeyError | IndexError | ZeroDivisionError

subsection \<open>Random number generators\<close>

text \<open>
  A \<open>random.Random\<close> object is a deterministic, infinite sequence of draws fixed by its
  seed. A generator that is read with \<open>random()\<close> or \<open>uniform(a, b)\<close> is the stream of
  its \<open>random()\<close> results; a generator that is read with \<open>choice(seq)\<close> is the stream of
  the raw integers from which the index into \<open>seq\<close> is taken. Every operation returns the
  rest of the stream, so the state of the generator is passed on explicitly.
\<close>

type_synonym rng = "real stream"
type_synonym choice_rng = "nat stream"

definition random_draw :: "rng \<Rightarrow> real \<times> rng" where
  "random_draw g = (shd g, stl g)"

definition uniform :: "real \<Rightarrow> real \<Rightarrow> rng \<Rightarrow> real \<times> rng" where
  \<comment> \<open>\<open>Random.uniform\<close> is \<open>a + (b - a) * self.random()\<close>.\<close>
  "uniform a b g = (a + (b - a) * shd g, stl g)"

definition choice :: "'a list \<Rightarrow> choice_rng \<Rightarrow> 'a \<times> choice_rng" where
  \<comment> \<open>\<open>Random.choice\<close> is \<open>seq[self._randbelow(len(seq))]\<close>; every call in the program
      passes a non-empty sequence.\<close>
  "choice xs g = (xs ! (shd g mod length xs), stl g)"

subsection \<open>Rounding\<close>

definition py_round :: "nat \<Rightarrow> real \<Rightarrow> real" where
  \<comment> \<open>\<open>round(x, nd)\<close>: to \<open>nd\<close> decimals, a tie going to the even neighbour.\<close>
  "py_round nd x =
     (let y = x * 10 ^ nd;
          f = \<lfloor>y\<rfloor>;
          d = y - of_int f;
          r = (if d < 1 / 2 then f
               else if d > 1 / 2 then f + 1
               else if even f then f else f + 1)
      in of_int r / 10 ^ nd)"

section \<open>Configuration constants (config.py)\<close>

text \<open>
  The tiers are the three strings of the type \<open>Tier\<close>; the slot names are the six strings
  of \<open>SLOT_NAMES\<close>, which are also the six attributes of \<open>CarSlots\<close>. Both are
  datatypes here, and a dictionary whose keys are slot names is a function or a map on
  \<open>slot\<close>.
\<close>

datatype tier = Standard | Upgraded | Performance

datatype slot = Engine | Tires | Suspension | Aero | Fuel | Electronics

definition SLOT_NAMES :: "slot list" where
  "SLOT_NAMES = [Engine, Tires, Suspension, Aero, Fuel, Electronics]"

fun TIER_SCORES :: "tier \<Rightarrow> int" where
  "TIER_SCORES Standard = 40"
| "TIER_SCORES Upgraded = 70"
| "TIER_SCORES Performance = 100"

fun SLOT_WEIGHT_UNITS :: "slot \<Rightarrow> tier \<Rightarrow> int" where
  "SLOT_WEIGHT_UNITS Engine Standard = 10"
| "SLOT_WEIGHT_UNITS Engine Upgraded = 14"
| "SLOT_WEIGHT_UNITS Engine Performance = 18"
| "SLOT_WEIGHT_UNITS Tires Standard = 8"
| "SLOT_WEIGHT_UNITS Tires Upgraded = 10"
| "SLOT_WEIGHT_UNITS Tires Performance = 13"
| "SLOT_WEIGHT_UNITS Suspension Standard = 6"
| "SLOT_WEIGHT_UNITS Suspension Upgraded = 8"
| "SLOT_WEIGHT_UNITS Suspension Performance = 11"
| "SLOT_WEIGHT_UNITS Aero Standard = 5"
| "SLOT_WEIGHT_UNITS Aero Upgraded = 7"
| "SLOT_WEIGHT_UNITS Aero Performance = 10"
| "SLOT_WEIGHT_UNITS Fuel Standard = 9"
| "SLOT_WEIGHT_UNITS Fuel Upgraded = 11"
| "SLOT_WEIGHT_UNITS Fuel Performance = 15"
| "SLOT_WEIGHT_UNITS Electronics Standard = 4"
| "SLOT_WEIGHT_UNITS Electronics Upgraded = 6"
| "SLOT_WEIGHT_UNITS Electronics Performance = 9"

definition WEIGHT_LIMIT :: int where
  "WEIGHT_LIMIT = 70"

definition BASE_WEAR_PCT :: real where
  "BASE_WEAR_PCT = 15.0"

definition WEAR_MULTIPLIERS :: "string \<rightharpoonup> real" where
  "WEAR_MULTIPLIERS = map_of
     [(''sprint'', 1.0), (''endurance'', 1.8), (''time_trial'', 0.8), (''wet_track'', 1.2),
      (''night_race'', 1.0), (''altitude'', 1.1), (''spec_class'', 1.0),
      (''weight_limit'', 1.0)]"

definition EVENT_STRESSED_SLOTS :: "string \<rightharpoonup> slot list" where
  "EVENT_STRESSED_SLOTS = map_of
     [(''sprint'', [Engine]), (''endurance'', [Fuel, Tires]), (''time_trial'', []),
      (''wet_track'', [Tires, Suspension]), (''night_race'', [Electronics]),
      (''altitude'', [Suspension, Aero]), (''spec_class'', [Electronics]),
      (''weight_limit'', [Aero, Fuel])]"

text \<open>
  Each entry of \<open>EVENT_SLOT_WEIGHTS\<close> is a dictionary with exactly the six slot names as
  keys; it is given here as the function of its six values, in the order of the source.
\<close>

fun slot_weights :: "real \<Rightarrow> real \<Rightarrow> real \<Rightarrow> real \<Rightarrow> real \<Rightarrow> real \<Rightarrow> slot \<Rightarrow> real" where
  "slot_weights en ti su ae fu el Engine = en"
| "slot_weights en ti su ae fu el Tires = ti"
| "slot_weights en ti su ae fu el Suspension = su"
| "slot_weights en ti su ae fu el Aero = ae"
| "slot_weights en ti su ae fu el Fuel = fu"
| "slot_weights en ti su ae fu el Electronics = el"

definition EVENT_SLOT_WEIGHTS :: "string \<rightharpoonup> (slot \<Rightarrow> real)" where
  "EVENT_SLOT_WEIGHTS = map_of
     [(''sprint'',       slot_weights 1.5 1.0 1.0 1.0 1.0 1.0),
      (''endurance'',    slot_weights 1.0 1.4 1.0 1.0 1.4 1.0),
      (''time_trial'',   slot_weights 1.0 1.0 1.0 1.0 1.0 1.0),
      (''wet_track'',    slot_weights 1.0 1.5 1.3 1.0 1.0 1.0),
      (''night_race'',   slot_weights 1.0 1.0 1.0 1.0 1.0 1.5),
      (''altitude'',     slot_weights 0.8 1.0 1.4 1.3 1.0 1.0),
      (''spec_class'',   slot_weights 1.0 1.0 1.0 1.0 1.0 1.4),
      (''weight_limit'', slot_weights 1.0 1.0 1.0 1.0 1.0 1.0)]"

definition TRACK_MIN_STEPS :: int where
  "TRACK_MIN_STEPS = 24"

definition TRACK_MAX_RETRIES :: nat where
  "TRACK_MAX_RETRIES = 10"

definition RACE_TICK_INTERVAL_MS :: real where
  "RACE_TICK_INTERVAL_MS = 62"

definition TILE_FEET :: real where
  "TILE_FEET = 30.0"

definition FT_PER_SEC_PER_G :: real where
  "FT_PER_SEC_PER_G = 32.174"

definition MPH_TO_FPS :: real where
  "MPH_TO_FPS = 5280.0 / 3600.0"

definition TOP_SPEED_FPS :: real where
  "TOP_SPEED_FPS = 120.0 * MPH_TO_FPS"

definition CORNER_SPEED_FPS :: real where
  "CORNER_SPEED_FPS = 60.0 * MPH_TO_FPS"

definition CHICANE_SPEED_FPS :: real where
  "CHICANE_SPEED_FPS = 45.0 * MPH_TO_FPS"

definition ACCEL_FPS2 :: real where
  "ACCEL_FPS2 = 0.5 * FT_PER_SEC_PER_G"

definition BRAKE_FPS2 :: real where
  "BRAKE_FPS2 = 1.0 * FT_PER_SEC_PER_G"

definition TRAILING_GRACE_TICKS :: nat where
  "TRAILING_GRACE_TICKS = 160"

section \<open>Data model (models.py)\<close>

record slot_part =
  tier :: tier
  readiness :: real

record car_slots =
  engine :: slot_part
  tires :: slot_part
  suspension :: slot_part
  aero :: slot_part
  fuel :: slot_part
  electronics :: slot_part

fun get_slot :: "car_slots \<Rightarrow> slot \<Rightarrow> slot_part" where
  "get_slot car Engine = engine car"
| "get_slot car Tires = tires car"
| "get_slot car Suspension = suspension car"
| "get_slot car Aero = aero car"
| "get_slot car Fuel = fuel car"
| "get_slot car Electronics = electronics car"

text \<open>
  \<open>SlotPart.readiness\<close> is declared \<open>Field(100.0, ge=0.0, le=100.0)\<close>: a slot part whose
  readiness is outside \<open>[0, 100]\<close> cannot be constructed.
\<close>

definition valid_slot_part :: "slot_part \<Rightarrow> bool" where
  "valid_slot_part p = (0 \<le> readiness p \<and> readiness p \<le> 100)"

definition valid_car :: "car_slots \<Rightarrow> bool" where
  "valid_car car = list_all (\<lambda>s. valid_slot_part (get_slot car s)) SLOT_NAMES"

datatype tile_type = Straight | Curve | Chicane

datatype orientation = Horizontal | Vertical | NE | NW | SE | SW

type_synonym cell = "int \<times> int"

record tile_data =
  tile_x :: int
  tile_y :: int
  tile_type :: tile_type
  tile_orientation :: orientation

record track_data =
  grid_width :: int
  grid_height :: int
  tiles :: "tile_data list"
  path_order :: "cell list"

record race_entry =
  re_player_id :: string
  re_username :: string
  locked_car :: "car_slots option"
  entered_at :: string

record slot_result =
  sr_tier :: tier
  sr_readiness :: real
  tier_score :: int
  event_weight :: real
  weighted_score :: real
  readiness_penalty :: real

type_synonym per_slot = "slot \<rightharpoonup> slot_result"

record entry_result =
  er_player_id :: string
  er_username :: string
  er_position :: nat
  er_result_score :: real
  er_build_quality :: real
  er_event_fit :: real
  er_readiness_score :: real
  er_luck_delta :: real
  er_counterfactual_position :: nat
  er_per_slot :: per_slot
  er_luck_tag :: string
  er_dnf :: bool
  er_dnf_slot :: "slot option"

text \<open>Of a \<open>Race\<close>, the simulator reads the id, the event type and the entries.\<close>

record race =
  race_id :: string
  event_type :: string
  entries :: "race_entry list"

section \<open>Per-entry computations (simulation/engine.py)\<close>

definition build_quality :: "car_slots \<Rightarrow> real" where
  "build_quality car =
     real_of_int (sum_list (map (\<lambda>s. TIER_SCORES (tier (get_slot car s))) SLOT_NAMES))
       / real (length SLOT_NAMES)"

definition event_fit_step :: "car_slots \<Rightarrow> (slot \<Rightarrow> real) \<Rightarrow> real \<Rightarrow> slot
    \<Rightarrow> real \<times> per_slot \<Rightarrow> real \<times> per_slot" where
  "event_fit_step car weights total_w s acc =
     (let part = get_slot car s;
          ts = TIER_SCORES (tier part);
          w = weights s;
          ws = real_of_int ts * w
      in (fst acc + ws,
          (snd acc)(s \<mapsto> \<lparr>sr_tier = tier part, sr_readiness = readiness part,
                           tier_score = ts, event_weight = w,
                           weighted_score = ws / total_w, readiness_penalty = 0.0\<rparr>)))"

definition event_penalty :: "car_slots \<Rightarrow> string \<Rightarrow> real" where
  "event_penalty car ev =
     (if ev = ''wet_track'' \<and> tier (tires car) = Standard then 15.0
      else if ev = ''night_race'' \<and> tier (electronics car) = Standard then 10.0
      else if ev = ''endurance'' then
        (if readiness (tires car) < 50 \<or> readiness (fuel car) < 50 then 10.0 else 0.0)
      else if ev = ''weight_limit'' then
        (if sum_list (map (\<lambda>s. SLOT_WEIGHT_UNITS s (tier (get_slot car s))) SLOT_NAMES)
              > WEIGHT_LIMIT
         then 20.0 else 0.0)
      else 0.0)"

definition event_fit :: "car_slots \<Rightarrow> string \<Rightarrow> error + (real \<times> per_slot)" where
  "event_fit car ev =
     (case EVENT_SLOT_WEIGHTS ev of
        None \<Rightarrow> Inl KeyError
      | Some weights \<Rightarrow>
          (let total_w = sum_list (map weights SLOT_NAMES);
               acc = fold (event_fit_step car weights total_w) SLOT_NAMES (0.0, Map.empty);
               raw_fit = fst acc / total_w
           in Inr (max 0.0 (raw_fit - event_penalty car ev), snd acc)))"

fun readiness_loop :: "slot list \<Rightarrow> car_slots \<Rightarrow> real \<Rightarrow> per_slot
    \<Rightarrow> error + (real \<times> per_slot)" where
  "readiness_loop [] car tot ps = Inr (tot, ps)"
| "readiness_loop (s # ss) car tot ps =
     (let r = readiness (get_slot car s) in
      if r < 50 then
        (let penalty = 50.0 - r;
             r' = max 0.0 (r - penalty)
         in case ps s of
              None \<Rightarrow> Inl KeyError
            | Some sr \<Rightarrow>
                readiness_loop ss car (tot + r') (ps(s \<mapsto> sr\<lparr>readiness_penalty := penalty\<rparr>)))
      else readiness_loop ss car (tot + r) ps)"

definition readiness_score :: "car_slots \<Rightarrow> per_slot \<Rightarrow> error + (real \<times> per_slot)" where
  \<comment> \<open>The source returns the score and updates \<open>per_slot\<close> in place; the model returns
      both.\<close>
  "readiness_score car ps =
     (case readiness_loop SLOT_NAMES car 0.0 ps of
        Inl e \<Rightarrow> Inl e
      | Inr (tot, ps') \<Rightarrow> Inr (tot / real (length SLOT_NAMES), ps'))"

fun check_dnf_loop :: "slot list \<Rightarrow> car_slots \<Rightarrow> rng \<Rightarrow> (bool \<times> slot option) \<times> rng" where
  "check_dnf_loop [] car g = ((False, None), g)"
| "check_dnf_loop (s # ss) car g =
     (if readiness (get_slot car s) < 20 then
        (let (u, g') = random_draw g in
         if u < 0.10 then ((True, Some s), g') else check_dnf_loop ss car g')
      else check_dnf_loop ss car g)"

definition check_dnf :: "car_slots \<Rightarrow> rng \<Rightarrow> (bool \<times> slot option) \<times> rng" where
  "check_dnf car g = check_dnf_loop SLOT_NAMES car g"

section \<open>Wear (simulation/engine.py)\<close>

definition wear_amount :: "string \<Rightarrow> slot \<Rightarrow> real" where
  "wear_amount ev s =
     (let multiplier = (case WEAR_MULTIPLIERS ev of None \<Rightarrow> 1.0 | Some m \<Rightarrow> m);
          stressed = (case EVENT_STRESSED_SLOTS ev of None \<Rightarrow> [] | Some l \<Rightarrow> l);
          wear = BASE_WEAR_PCT * multiplier
      in if s \<in> set stressed then wear * 1.5 else wear)"

definition worn_part :: "car_slots \<Rightarrow> string \<Rightarrow> slot \<Rightarrow> slot_part" where
  "worn_part car ev s =
     (let part = get_slot car s;
          new_r = max 0.0 (readiness part - wear_amount ev s)
      in \<lparr>tier = tier part, readiness = py_round 1 new_r\<rparr>)"

definition apply_wear :: "car_slots \<Rightarrow> string \<Rightarrow> car_slots" where
  \<comment> \<open>\<open>CarSlots(**updated)\<close>, where \<open>updated[s]\<close> is the worn part of slot \<open>s\<close>\<close>
  "apply_wear car ev =
     \<lparr>engine = worn_part car ev Engine, tires = worn_part car ev Tires,
      suspension = worn_part car ev Suspension, aero = worn_part car ev Aero,
      fuel = worn_part car ev Fuel, electronics = worn_part car ev Electronics\<rparr>"

section \<open>Race simulation (simulation/engine.py)\<close>

definition LUCK_TAGS_POSITIVE :: "string list" where
  "LUCK_TAGS_POSITIVE =
     [''Perfect run through all sectors'', ''Clean air throughout'',
      ''Flawless pit strategy'', ''Ideal conditions hit at the right moment'',
      ''Competitor incident cleared the way'']"

definition LUCK_TAGS_NEGATIVE :: "string list" where
  "LUCK_TAGS_NEGATIVE =
     [''Mechanical issue on lap 3'', ''Traffic incident cost time'',
      ''Safety car negated the lead'', ''Unexpected surface grip loss'',
      ''Debris on track forced evasion'']"

definition LUCK_TAG_NEUTRAL :: string where
  \<comment> \<open>The dash of the source is U+2014, three bytes in UTF-8.\<close>
  "LUCK_TAG_NEUTRAL =
     ''Uneventful run '' @ [CHR 0xE2, CHR 0x80, CHR 0x94] @ '' luck was a non-factor''"

text \<open>
  \<open>_seeded_rng\<close> builds \<open>random.Random(int(sha256(s).hexdigest(), 16) % 2**32)\<close> for the
  string \<open>s = f"{race_id}:{player_id}"\<close>. The parameter \<open>mk\<close> stands for that
  construction: it gives, for the string \<open>s\<close>, the stream of draws of the generator
  seeded from the hash of \<open>s\<close>.
\<close>

definition seeded_rng :: "(string \<Rightarrow> rng) \<Rightarrow> string \<Rightarrow> string \<Rightarrow> rng" where
  "seeded_rng mk rid pid = mk (rid @ '':'' @ pid)"

text \<open>
  \<open>_luck_tag\<close> calls \<open>random.choice\<close> of the module \<open>random\<close>: it reads and advances
  the generator shared by the whole process, which is the argument \<open>g\<close> here.
\<close>

definition luck_tag :: "real \<Rightarrow> choice_rng \<Rightarrow> string \<times> choice_rng" where
  "luck_tag delta g =
     (if delta > 5 then choice LUCK_TAGS_POSITIVE g
      else if delta < - 5 then choice LUCK_TAGS_NEGATIVE g
      else (LUCK_TAG_NEUTRAL, g))"

text \<open>The dictionaries collected in \<open>raw_results\<close>.\<close>

record raw_result =
  rr_player_id :: string
  rr_username :: string
  rr_score :: real
  rr_build_quality :: real
  rr_event_fit :: real
  rr_readiness_score :: real
  rr_luck_delta :: real
  rr_per_slot :: per_slot
  rr_dnf :: bool
  rr_dnf_slot :: "slot option"

definition luck_range :: "string \<Rightarrow> real" where
  "luck_range ev = (if ev = ''time_trial'' then 5.0 else 15.0)"

definition bq_weight :: "string \<Rightarrow> real" where
  "bq_weight ev = (if ev = ''time_trial'' then 0.50 else 0.40)"

text \<open>The body of the loop over \<open>race.entries\<close>, for an entry whose car is locked.\<close>

definition score_entry :: "(string \<Rightarrow> rng) \<Rightarrow> string \<Rightarrow> string \<Rightarrow> race_entry \<Rightarrow> car_slots
    \<Rightarrow> error + raw_result" where
  "score_entry mk rid ev entry car =
     (let g = seeded_rng mk rid (re_player_id entry);
          ((dnf, dnf_slot), g1) = check_dnf car g;
          bq = build_quality car
      in case event_fit car ev of
           Inl e \<Rightarrow> Inl e
         | Inr (ef, ps) \<Rightarrow>
             (case readiness_score car ps of
                Inl e \<Rightarrow> Inl e
              | Inr (rs, ps') \<Rightarrow>
                  (let (luck, g2) = uniform (- luck_range ev) (luck_range ev) g1;
                       score = (if dnf then 0.0
                                else max 0.0 (min 100.0
                                  ((bq * bq_weight ev) + (ef * 0.35) + (rs * 0.25) + luck)))
                   in Inr \<lparr>rr_player_id = re_player_id entry,
                           rr_username = re_username entry,
                           rr_score = score, rr_build_quality = bq, rr_event_fit = ef,
                           rr_readiness_score = rs, rr_luck_delta = luck,
                           rr_per_slot = ps', rr_dnf = dnf, rr_dnf_slot = dnf_slot\<rparr>)))"

fun raw_results_loop :: "(string \<Rightarrow> rng) \<Rightarrow> string \<Rightarrow> string \<Rightarrow> race_entry list
    \<Rightarrow> error + raw_result list" where
  "raw_results_loop mk rid ev [] = Inr []"
| "raw_results_loop mk rid ev (entry # rest) =
     (case locked_car entry of
        None \<Rightarrow> raw_results_loop mk rid ev rest
      | Some car \<Rightarrow>
          (case score_entry mk rid ev entry car of
             Inl e \<Rightarrow> Inl e
           | Inr r \<Rightarrow>
               (case raw_results_loop mk rid ev rest of
                  Inl e \<Rightarrow> Inl e
                | Inr rs \<Rightarrow> Inr (r # rs))))"

text \<open>
  \<open>xs.sort(key=k, reverse=True)\<close> is a stable sort into non-increasing key order: elements
  of equal key keep their order. \<open>sort_key\<close> is a stable sort into non-decreasing order of
  its key, so it is used on the negated key.
\<close>

definition sort_desc :: "('a \<Rightarrow> real) \<Rightarrow> 'a list \<Rightarrow> 'a list" where
  "sort_desc k xs = sort_key (\<lambda>x. - k x) xs"

definition neutral_score :: "string \<Rightarrow> raw_result \<Rightarrow> real" where
  "neutral_score ev r =
     (rr_build_quality r * bq_weight ev) + (rr_event_fit r * 0.35)
       + (rr_readiness_score r * 0.25)"

definition cf_rank_step :: "nat \<times> (string \<times> real) \<Rightarrow> (string \<rightharpoonup> nat)
    \<Rightarrow> (string \<rightharpoonup> nat)" where
  "cf_rank_step ip m = (case ip of (i, (pid, _)) \<Rightarrow> m(pid \<mapsto> i + 1))"

definition cf_rank_of :: "(string \<times> real) list \<Rightarrow> (string \<rightharpoonup> nat)" where
  \<comment> \<open>\<open>{pid: i + 1 for i, (pid, _) in enumerate(neutral_scores)}\<close>: a later pair of the
      same id overwrites an earlier one.\<close>
  "cf_rank_of ns = fold cf_rank_step (enumerate 0 ns) Map.empty"

fun results_loop :: "(string \<rightharpoonup> nat) \<Rightarrow> (nat \<times> raw_result) list \<Rightarrow> choice_rng
    \<Rightarrow> error + (entry_result list \<times> choice_rng)" where
  "results_loop cf_rank [] g = Inr ([], g)"
| "results_loop cf_rank ((pos, r) # rest) g =
     (case cf_rank (rr_player_id r) of
        None \<Rightarrow> Inl KeyError
      | Some cf \<Rightarrow>
          (let (tag, g') = luck_tag (rr_luck_delta r) g;
               res = \<lparr>er_player_id = rr_player_id r,
                      er_username = rr_username r,
                      er_position = pos,
                      er_result_score = py_round 2 (rr_score r),
                      er_build_quality = py_round 2 (rr_build_quality r),
                      er_event_fit = py_round 2 (rr_event_fit r),
                      er_readiness_score = py_round 2 (rr_readiness_score r),
                      er_luck_delta = py_round 2 (rr_luck_delta r),
                      er_counterfactual_position = cf,
                      er_per_slot = rr_per_slot r,
                      er_luck_tag = tag,
                      er_dnf = rr_dnf r,
                      er_dnf_slot = rr_dnf_slot r\<rparr>
           in case results_loop cf_rank rest g' of
                Inl e \<Rightarrow> Inl e
              | Inr (rs, g'') \<Rightarrow> Inr (res # rs, g'')))"

definition raw_results :: "(string \<Rightarrow> rng) \<Rightarrow> race \<Rightarrow> error + raw_result list" where
  "raw_results mk rc = raw_results_loop mk (race_id rc) (event_type rc) (entries rc)"

definition ranked :: "raw_result list \<Rightarrow> raw_result list" where
  "ranked raws = sort_desc rr_score raws"

definition neutral_scores :: "string \<Rightarrow> raw_result list \<Rightarrow> (string \<times> real) list" where
  "neutral_scores ev rs = sort_desc snd (map (\<lambda>r. (rr_player_id r, neutral_score ev r)) rs)"

definition simulate_race :: "(string \<Rightarrow> rng) \<Rightarrow> choice_rng \<Rightarrow> race
    \<Rightarrow> error + (entry_result list \<times> choice_rng)" where
  \<comment> \<open>The result is the returned list and the state in which the call leaves the
      process-wide generator.\<close>
  "simulate_race mk g rc =
     (case raw_results mk rc of
        Inl e \<Rightarrow> Inl e
      | Inr raws \<Rightarrow>
          (let rs = ranked raws;
               cf_rank = cf_rank_of (neutral_scores (event_type rc) rs)
           in results_loop cf_rank (enumerate 1 rs) g))"

section \<open>Track generation (track_gen.py)\<close>

definition COMPASS :: "cell \<rightharpoonup> string" where
  "COMPASS = map_of [((1, 0), ''E''), ((- 1, 0), ''W''), ((0, 1), ''S''), ((0, - 1), ''N'')]"

definition CURVE_DIRS :: "string set \<rightharpoonup> orientation" where
  "CURVE_DIRS = map_of
     [({''N'', ''E''}, NE), ({''N'', ''W''}, NW), ({''S'', ''E''}, SE), ({''S'', ''W''}, SW)]"

definition tile_type_orientation :: "cell \<Rightarrow> cell \<Rightarrow> error + (tile_type \<times> orientation)" where
  "tile_type_orientation came_from_delta going_to_delta =
     (if came_from_delta = going_to_delta then
        (if fst came_from_delta \<noteq> 0 then Inr (Straight, Horizontal)
         else Inr (Straight, Vertical))
      else
        (case COMPASS came_from_delta of
           None \<Rightarrow> Inl KeyError
         | Some from_label \<Rightarrow>
             (case COMPASS going_to_delta of
                None \<Rightarrow> Inl KeyError
              | Some to_label \<Rightarrow>
                  (case CURVE_DIRS {from_label, to_label} of
                     Some orient \<Rightarrow> Inr (Curve, orient)
                   | None \<Rightarrow> Inr (Straight, Horizontal)))))"

text \<open>
  The tile at index \<open>i\<close> of \<open>path_order\<close> (here \<open>po\<close>), of length \<open>m\<close>. Python's \<open>(i - 1) % m\<close> is
  \<open>m - 1\<close> for \<open>i = 0\<close>.
\<close>

definition tile_at :: "cell list \<Rightarrow> nat \<Rightarrow> error + tile_data" where
  "tile_at po i =
     (let m = length po;
          (x, y) = po ! i;
          prev = po ! nat ((int i - 1) mod int m);
          nxt = po ! ((i + 1) mod m);
          came_from = (x - fst prev, y - snd prev);
          going_to = (fst nxt - x, snd nxt - y)
      in case tile_type_orientation came_from going_to of
           Inl e \<Rightarrow> Inl e
         | Inr (t_type, t_orient) \<Rightarrow>
             Inr \<lparr>tile_x = x, tile_y = y, tile_type = t_type, tile_orientation = t_orient\<rparr>)"

fun tiles_loop :: "cell list \<Rightarrow> nat list \<Rightarrow> error + tile_data list" where
  "tiles_loop po [] = Inr []"
| "tiles_loop po (i # is) =
     (case tile_at po i of
        Inl e \<Rightarrow> Inl e
      | Inr t \<Rightarrow>
          (case tiles_loop po is of
             Inl e \<Rightarrow> Inl e
           | Inr ts \<Rightarrow> Inr (t # ts)))"

definition build_track_data :: "cell list \<Rightarrow> int \<Rightarrow> error + track_data" where
  "build_track_data path n =
     (let po = butlast path in
      case tiles_loop po [0..<length po] of
        Inl e \<Rightarrow> Inl e
      | Inr ts \<Rightarrow>
          Inr \<lparr>grid_width = n, grid_height = n, tiles = ts, path_order = po\<rparr>)"

definition DIRECTIONS :: "cell list" where
  "DIRECTIONS = [(1, 0), (- 1, 0), (0, 1), (0, - 1)]"

definition start :: cell where
  "start = (0, 0)"

definition min_steps :: "int \<Rightarrow> int" where
  "min_steps n = max TRACK_MIN_STEPS (n * 2)"

definition neighbours :: "cell \<Rightarrow> cell list" where
  "neighbours current = map (\<lambda>(dx, dy). (fst current + dx, snd current + dy)) DIRECTIONS"

definition candidates :: "int \<Rightarrow> cell set \<Rightarrow> cell \<Rightarrow> cell list" where
  "candidates n visited current =
     filter (\<lambda>(nx, ny). 0 \<le> nx \<and> nx < n \<and> 0 \<le> ny \<and> ny < n \<and> (nx, ny) \<notin> visited)
       (neighbours current)"

text \<open>
  The loop \<open>for _ in range(max_steps)\<close> of \<open>_try_walk\<close>; the first argument counts the
  iterations that remain. The result is the path, or \<open>None\<close>, and the generator as the
  walk leaves it.
\<close>

fun walk_loop :: "nat \<Rightarrow> int \<Rightarrow> cell list \<Rightarrow> cell set \<Rightarrow> cell \<Rightarrow> choice_rng
    \<Rightarrow> cell list option \<times> choice_rng" where
  "walk_loop 0 n path visited current g = (None, g)"
| "walk_loop (Suc k) n path visited current g =
     (if int (length path) \<ge> min_steps n \<and> start \<in> set (neighbours current)
      then (Some (path @ [start]), g)
      else
        (let cs = candidates n visited current in
         if cs = [] then (None, g)
         else
           (let (nxt, g') = choice cs g
            in walk_loop k n (path @ [nxt]) (insert nxt visited) nxt g')))"

definition try_walk :: "int \<Rightarrow> choice_rng \<Rightarrow> cell list option \<times> choice_rng" where
  "try_walk n g = walk_loop (nat (n * n)) n [start] {start} start g"

definition py_range :: "int \<Rightarrow> int \<Rightarrow> int list" where
  \<comment> \<open>\<open>range(a, b)\<close>\<close>
  "py_range a b = [a..b - 1]"

definition py_range_down :: "int \<Rightarrow> int \<Rightarrow> int list" where
  \<comment> \<open>\<open>range(a, b, -1)\<close>\<close>
  "py_range_down a b = rev [b + 1..a]"

definition oval_path :: "int \<Rightarrow> cell list" where
  "oval_path n =
     (let lo = 1; hi = n - 2
      in map (\<lambda>x. (x, lo)) (py_range lo (hi + 1))
         @ map (\<lambda>y. (hi, y)) (py_range (lo + 1) (hi + 1))
         @ map (\<lambda>x. (x, hi)) (py_range_down (hi - 1) (lo - 1))
         @ map (\<lambda>y. (lo, y)) (py_range_down (hi - 1) lo))"

definition oval_fallback :: "int \<Rightarrow> error + track_data" where
  "oval_fallback n =
     (case oval_path n of
        [] \<Rightarrow> Inl IndexError
      | p0 # ps \<Rightarrow> build_track_data ((p0 # ps) @ [p0]) n)"

fun retry_loop :: "nat \<Rightarrow> int \<Rightarrow> choice_rng \<Rightarrow> cell list option" where
  "retry_loop 0 n g = None"
| "retry_loop (Suc k) n g =
     (case try_walk n g of
        (Some path, g') \<Rightarrow> Some path
      | (None, g') \<Rightarrow> retry_loop k n g')"

text \<open>
  \<open>generate_track(n, seed)\<close>; the argument \<open>g\<close> is the generator \<open>random.Random(seed)\<close>.
\<close>

definition generate_track :: "int \<Rightarrow> choice_rng \<Rightarrow> error + track_data" where
  "generate_track n g =
     (case retry_loop TRACK_MAX_RETRIES n g of
        Some path \<Rightarrow> build_track_data path n
      | None \<Rightarrow> oval_fallback n)"

text \<open>Two cells are grid-adjacent when they differ by one step along one axis.\<close>

definition adjacent :: "cell \<Rightarrow> cell \<Rightarrow> bool" where
  "adjacent a b = (\<bar>fst a - fst b\<bar> + \<bar>snd a - snd b\<bar> = 1)"

text \<open>
  A simple closed cycle: pairwise distinct cells, each adjacent to the next, and the
  last adjacent to the first.
\<close>

definition simple_cycle :: "cell list \<Rightarrow> bool" where
  "simple_cycle cs =
     (cs \<noteq> [] \<and> distinct cs \<and> successively adjacent cs \<and> adjacent (last cs) (hd cs))"

section \<open>Speed profile (simulation/engine.py)\<close>

text \<open>
  A position of \<open>path_order\<close> is the two-element list \<open>[x, y]\<close>; it is modelled as the
  pair \<open>(x, y)\<close>.
\<close>

definition tile_type_by_pos :: "tile_data list \<Rightarrow> (cell \<rightharpoonup> tile_type)" where
  "tile_type_by_pos ts = fold (\<lambda>t m. m((tile_x t, tile_y t) \<mapsto> tile_type t)) ts Map.empty"

definition raw_target :: "(cell \<rightharpoonup> tile_type) \<Rightarrow> cell \<Rightarrow> real" where
  "raw_target m pos =
     (let tt = (case m pos of None \<Rightarrow> Straight | Some t \<Rightarrow> t) in
      if tt = Chicane then CHICANE_SPEED_FPS
      else if tt = Curve then CORNER_SPEED_FPS
      else TOP_SPEED_FPS)"

definition brake_step :: "nat \<Rightarrow> nat \<Rightarrow> real list \<times> bool \<Rightarrow> real list \<times> bool" where
  "brake_step n i sc =
     (let speed = fst sc;
          nxt = (i + 1) mod n;
          limit = sqrt ((speed ! nxt)\<^sup>2 + 2.0 * BRAKE_FPS2 * TILE_FEET)
      in if speed ! i > limit + 0.01 then (speed[i := limit], True) else sc)"

definition accel_step :: "nat \<Rightarrow> nat \<Rightarrow> real list \<times> bool \<Rightarrow> real list \<times> bool" where
  "accel_step n i sc =
     (let speed = fst sc;
          prev = nat ((int i - 1) mod int n);
          limit = sqrt ((speed ! prev)\<^sup>2 + 2.0 * ACCEL_FPS2 * TILE_FEET)
      in if speed ! i > limit + 0.01 then (speed[i := limit], True) else sc)"

text \<open>One backward and one forward pass; the flag is \<open>changed\<close>.\<close>

definition sweep :: "nat \<Rightarrow> real list \<Rightarrow> real list \<times> bool" where
  "sweep n speed = fold (accel_step n) [0..<n] (fold (brake_step n) [0..<n] (speed, False))"

fun passes :: "nat \<Rightarrow> nat \<Rightarrow> real list \<Rightarrow> real list" where
  "passes 0 n speed = speed"
| "passes (Suc k) n speed =
     (let (speed', changed) = sweep n speed in
      if \<not> changed then speed' else passes k n speed')"

definition raw_speeds :: "track_data \<Rightarrow> real list" where
  "raw_speeds track = map (raw_target (tile_type_by_pos (tiles track))) (path_order track)"

definition build_speed_profile :: "track_data \<Rightarrow> real list" where
  "build_speed_profile track = passes 10 (length (path_order track)) (raw_speeds track)"

section \<open>Tick stream (simulation/engine.py)\<close>

record car_snapshot =
  car_id :: string
  cs_username :: string
  progress :: real
  speed :: real
  incident :: "string option"

record tick =
  tick_no :: nat
  tick_lap_count :: int
  cars :: "car_snapshot list"

text \<open>
  The per-car dictionaries that the loop updates. Every key that is read was written by
  the initialisation loop, which runs over the same \<open>results\<close>; the dictionaries are
  total functions whose value at a player id not in \<open>results\<close> is never read.
\<close>

record sim_state =
  car_pos :: "string \<Rightarrow> real"
  car_vel :: "string \<Rightarrow> real"
  car_finished :: "string \<Rightarrow> nat option"
  dnf_fired :: "string \<Rightarrow> bool"
  leader_finished_tick :: "nat option"

text \<open>What is fixed before the first tick.\<close>

record stream_env =
  profile :: "real list"
  n_tiles :: nat
  total_distance :: real
  car_factor :: "string \<Rightarrow> real"
  dnf_stop :: "string \<rightharpoonup> real"
  env_lap_count :: int

definition dt :: real where
  "dt = RACE_TICK_INTERVAL_MS / 1000.0"

definition max_ticks :: nat where
  "max_ticks = 200000"

fun max_list :: "real list \<Rightarrow> real" where
  "max_list [] = 0"
| "max_list [x] = x"
| "max_list (x # y # ys) = max x (max_list (y # ys))"

definition max_score :: "entry_result list \<Rightarrow> real" where
  \<comment> \<open>\<open>max(r.result_score for r in results) or 1.0\<close>, for non-empty \<open>results\<close>\<close>
  "max_score results =
     (let m = max_list (map er_result_score results) in if m = 0 then 1.0 else m)"

text \<open>
  The initialisation loop. \<open>dnf_rng pid\<close> stands for the generator
  \<open>random.Random(hash(pid))\<close>.
\<close>

definition init_car :: "(string \<Rightarrow> rng) \<Rightarrow> real \<Rightarrow> entry_result
    \<Rightarrow> (string \<Rightarrow> real) \<times> (string \<rightharpoonup> real) \<Rightarrow> (string \<Rightarrow> real) \<times> (string \<rightharpoonup> real)" where
  "init_car dnf_rng ms r fs =
     (let pid = er_player_id r;
          f = (fst fs)(pid := max 0.3 (er_result_score r / ms))
      in if er_dnf r then (f, (snd fs)(pid \<mapsto> fst (uniform 0.3 0.7 (dnf_rng pid))))
         else (f, snd fs))"

definition init_state :: sim_state where
  "init_state =
     \<lparr>car_pos = (\<lambda>_. 0.0), car_vel = (\<lambda>_. 0.0), car_finished = (\<lambda>_. None),
      dnf_fired = (\<lambda>_. False), leader_finished_tick = None\<rparr>"

definition make_env :: "(string \<Rightarrow> rng) \<Rightarrow> entry_result list \<Rightarrow> int \<Rightarrow> track_data option
    \<Rightarrow> stream_env" where
  "make_env dnf_rng results lap_count track =
     (let (prof, nt) =
            (case track of
               None \<Rightarrow> ([TOP_SPEED_FPS], 1)
             | Some tr \<Rightarrow>
                 if path_order tr \<noteq> [] then (build_speed_profile tr, length (path_order tr))
                 else ([TOP_SPEED_FPS], 1));
          fs = fold (init_car dnf_rng (max_score results)) results ((\<lambda>_. 0.0), Map.empty)
      in \<lparr>profile = prof, n_tiles = nt,
          total_distance = TILE_FEET * real nt * real_of_int lap_count,
          car_factor = fst fs, dnf_stop = snd fs, env_lap_count = lap_count\<rparr>)"

definition py_fmod :: "real \<Rightarrow> real \<Rightarrow> real" where
  \<comment> \<open>\<open>x % y\<close> on floats, for \<open>y > 0\<close>\<close>
  "py_fmod x y = x - y * of_int \<lfloor>x / y\<rfloor>"

definition py_int :: "real \<Rightarrow> int" where
  \<comment> \<open>\<open>int(x)\<close> truncates towards zero\<close>
  "py_int x = (if 0 \<le> x then \<lfloor>x\<rfloor> else \<lceil>x\<rceil>)"

definition at_dnf_stop :: "stream_env \<Rightarrow> sim_state \<Rightarrow> entry_result \<Rightarrow> bool" where
  \<comment> \<open>\<open>r.dnf and pid in dnf_stop\<close>, and \<open>car_pos[pid] >= dnf_stop[pid] * total_distance\<close>\<close>
  "at_dnf_stop env st r =
     (er_dnf r \<and>
      (case dnf_stop env (er_player_id r) of
         None \<Rightarrow> False
       | Some stop_at \<Rightarrow> car_pos st (er_player_id r) \<ge> stop_at * total_distance env))"

definition new_velocity :: "real \<Rightarrow> real \<Rightarrow> real" where
  "new_velocity vel target =
     (if vel < target then min target (vel + ACCEL_FPS2 * dt)
      else if vel > target then max target (vel - BRAKE_FPS2 * dt)
      else vel)"

text \<open>
  The body of the loop \<open>for r in results\<close> within one tick: the new state, the snapshot
  appended to \<open>cars_data\<close>, and whether the car was still moving (which clears
  \<open>all_done\<close>).
\<close>

definition car_tick :: "stream_env \<Rightarrow> nat \<Rightarrow> entry_result \<Rightarrow> sim_state
    \<Rightarrow> sim_state \<times> car_snapshot \<times> bool" where
  "car_tick env tick_num r st =
     (let pid = er_player_id r in
      if car_finished st pid \<noteq> None then
        (st,
         \<lparr>car_id = pid, cs_username = er_username r,
          progress = py_round 4 (min 1.0 (car_pos st pid / total_distance env)),
          speed = py_round 0 (car_vel st pid / MPH_TO_FPS),
          incident = (if er_dnf r then Some ''dnf'' else None)\<rparr>,
         False)
      else if at_dnf_stop env st r then
        (st\<lparr>car_vel := (car_vel st)(pid := 0.0),
            car_finished := (car_finished st)(pid := Some tick_num),
            dnf_fired := (dnf_fired st)(pid := True)\<rparr>,
         \<lparr>car_id = pid, cs_username = er_username r,
          progress = py_round 4 (car_pos st pid / total_distance env),
          speed = 0.0,
          incident = Some (if \<not> dnf_fired st pid then ''dnf_start'' else ''dnf'')\<rparr>,
         False)
      else
        (let lap_distance = TILE_FEET * real (n_tiles env);
             feet_into_lap = py_fmod (car_pos st pid) lap_distance;
             tile_idx = nat (py_int (feet_into_lap / TILE_FEET) mod int (n_tiles env));
             target = profile env ! tile_idx * car_factor env pid;
             vel = new_velocity (car_vel st pid) target;
             pos = car_pos st pid + vel * dt;
             finished_now = (pos / total_distance env \<ge> 1.0);
             pos' = (if finished_now then total_distance env else pos);
             st' = st\<lparr>car_vel := (car_vel st)(pid := vel),
                      car_pos := (car_pos st)(pid := pos'),
                      car_finished := (if finished_now
                                       then (car_finished st)(pid := Some tick_num)
                                       else car_finished st),
                      leader_finished_tick :=
                        (if finished_now \<and> leader_finished_tick st = None
                         then Some tick_num else leader_finished_tick st)\<rparr>
         in (st',
             \<lparr>car_id = pid, cs_username = er_username r,
              progress = py_round 4 (min 1.0 (pos' / total_distance env)),
              speed = py_round 0 (vel / MPH_TO_FPS),
              incident = None\<rparr>,
             True)))"

fun cars_loop :: "stream_env \<Rightarrow> nat \<Rightarrow> entry_result list \<Rightarrow> sim_state
    \<Rightarrow> sim_state \<times> car_snapshot list \<times> bool" where
  "cars_loop env tick_num [] st = (st, [], True)"
| "cars_loop env tick_num (r # rs) st =
     (let (st1, snap, moving) = car_tick env tick_num r st;
          (st2, snaps, all_done) = cars_loop env tick_num rs st1
      in (st2, snap # snaps, all_done \<and> \<not> moving))"

definition grace_elapsed :: "sim_state \<Rightarrow> nat \<Rightarrow> bool" where
  "grace_elapsed st tick_num =
     (case leader_finished_tick st of
        None \<Rightarrow> False
      | Some l \<Rightarrow> tick_num - l \<ge> TRAILING_GRACE_TICKS)"

text \<open>
  The loop \<open>while tick_num < max_ticks\<close>. Each element is a yielded tick together with
  the state of the cars after it.
\<close>

function ticks_from :: "stream_env \<Rightarrow> entry_result list \<Rightarrow> nat \<Rightarrow> sim_state
    \<Rightarrow> (tick \<times> sim_state) list" where
  "ticks_from env results tick_num st =
     (if tick_num < max_ticks then
        (let t = tick_num + 1;
             (st', cars_data, all_done) = cars_loop env t results st;
             tk = \<lparr>tick_no = t, tick_lap_count = env_lap_count env, cars = cars_data\<rparr>
         in (tk, st') #
            (if all_done then []
             else if grace_elapsed st' t then []
             else ticks_from env results t st'))
      else [])"
  by pat_completeness auto
termination
  by (relation "measure (\<lambda>(env, results, tick_num, st). max_ticks - tick_num)") auto

definition run_ticks :: "(string \<Rightarrow> rng) \<Rightarrow> entry_result list \<Rightarrow> int \<Rightarrow> track_data option
    \<Rightarrow> error + (tick \<times> sim_state) list" where
  "run_ticks dnf_rng results lap_count track =
     (if results = [] then Inr []
      else
        (let env = make_env dnf_rng results lap_count track in
         if total_distance env = 0 then Inl ZeroDivisionError
         else Inr (ticks_from env results 0 init_state)))"

definition generate_tick_stream :: "(string \<Rightarrow> rng) \<Rightarrow> entry_result list \<Rightarrow> int
    \<Rightarrow> track_data option \<Rightarrow> error + tick list" where
  "generate_tick_stream dnf_rng results lap_count track =
     map_sum id (map fst) (run_ticks dnf_rng results lap_count track)"

section \<open>Predicates of the verification\<close>

text \<open>What one slot of readiness \<open>r\<close> adds to the running total of \<open>readiness_loop\<close>.\<close>

definition slot_contribution :: "real \<Rightarrow> real" where
  "slot_contribution r = (if r < 50 then max 0 (r - (50 - r)) else r)"

text \<open>
  How a returned result relates to the ranked raw result it is built from: \<open>fst pr\<close> is
  the position, \<open>snd pr\<close> the raw result, \<open>cf\<close> the dictionary of counterfactual ranks.
\<close>

definition result_of :: "(string \<rightharpoonup> nat) \<Rightarrow> entry_result \<Rightarrow> nat \<times> raw_result \<Rightarrow> bool" where
  "result_of cf res pr =
     (er_position res = fst pr
      \<and> er_player_id res = rr_player_id (snd pr)
      \<and> er_username res = rr_username (snd pr)
      \<and> er_result_score res = py_round 2 (rr_score (snd pr))
      \<and> er_build_quality res = py_round 2 (rr_build_quality (snd pr))
      \<and> er_event_fit res = py_round 2 (rr_event_fit (snd pr))
      \<and> er_readiness_score res = py_round 2 (rr_readiness_score (snd pr))
      \<and> er_luck_delta res = py_round 2 (rr_luck_delta (snd pr))
      \<and> cf (rr_player_id (snd pr)) = Some (er_counterfactual_position res)
      \<and> er_per_slot res = rr_per_slot (snd pr)
      \<and> er_dnf res = rr_dnf (snd pr)
      \<and> er_dnf_slot res = rr_dnf_slot (snd pr))"

text \<open>The invariant of the loop of \<open>_try_walk\<close>.\<close>

definition walk_inv :: "cell list \<Rightarrow> cell set \<Rightarrow> cell \<Rightarrow> bool" where
  "walk_inv path visited current =
     (path \<noteq> [] \<and> hd path = start \<and> last path = current \<and> visited = set path
      \<and> distinct path \<and> successively adjacent path)"

text \<open>
  The invariant of the sweeps of \<open>build_speed_profile\<close>: every speed is positive and at
  most the raw target at its index.
\<close>

definition profile_inv :: "real list \<Rightarrow> real list \<Rightarrow> bool" where
  "profile_inv raw sp = (list_all2 (\<le>) sp raw \<and> (\<forall>x\<in>set sp. 0 < x))"

text \<open>What the tick loop needs of the values fixed before it starts.\<close>

definition env_ok :: "stream_env \<Rightarrow> bool" where
  "env_ok env =
     (0 < total_distance env \<and> 0 < n_tiles env \<and> length (profile env) = n_tiles env
      \<and> (\<forall>x\<in>set (profile env). 0 < x) \<and> (\<forall>p. 0 \<le> car_factor env p)
      \<and> (\<forall>p f. dnf_stop env p = Some f \<longrightarrow> f \<le> 1))"

text \<open>
  The invariant of the tick loop: no car moves backwards, no car is beyond the total
  distance, and a car marked finished stands at the total distance or at or beyond its
  stop point.
\<close>

definition state_inv :: "stream_env \<Rightarrow> sim_state \<Rightarrow> bool" where
  "state_inv env st =
     ((\<forall>p. 0 \<le> car_vel st p)
      \<and> (\<forall>p. 0 \<le> car_pos st p \<and> car_pos st p \<le> total_distance env)
      \<and> (\<forall>p. car_finished st p \<noteq> None \<longrightarrow>
             car_pos st p = total_distance env
           \<or> (\<exists>f. dnf_stop env p = Some f \<and> f * total_distance env \<le> car_pos st p)))"

text \<open>The target speed that the physics step computes for a car.\<close>

definition target_speed :: "stream_env \<Rightarrow> sim_state \<Rightarrow> string \<Rightarrow> real" where
  "target_speed env st pid =
     profile env ! nat (py_int (py_fmod (car_pos st pid) (TILE_FEET * real (n_tiles env))
                                 / TILE_FEET) mod int (n_tiles env))
       * car_factor env pid"

text \<open>The progress that a snapshot reports for a car at its position in a state.\<close>

definition rounded_progress :: "stream_env \<Rightarrow> sim_state \<Rightarrow> string \<Rightarrow> real" where
  "rounded_progress env st pid = py_round 4 (car_pos st pid / total_distance env)"

definition snap_ok :: "stream_env \<Rightarrow> car_snapshot \<Rightarrow> entry_result \<Rightarrow> bool" where
  "snap_ok env snap r =
     (car_id snap = er_player_id r \<and> 0 \<le> progress snap \<and> progress snap \<le> 1
      \<and> (incident snap \<noteq> None \<longrightarrow>
            (\<forall>f. dnf_stop env (er_player_id r) = Some f \<longrightarrow> py_round 4 f \<le> progress snap)))"

definition tick_ok :: "stream_env \<Rightarrow> entry_result list \<Rightarrow> tick \<times> sim_state \<Rightarrow> bool" where
  "tick_ok env rs x =
     (state_inv env (snd x)
      \<and> list_all2 (snap_ok env) (cars (fst x)) rs
      \<and> (\<forall>j<length rs. progress (cars (fst x) ! j)
             \<le> rounded_progress env (snd x) (er_player_id (rs ! j)))
      \<and> (distinct (map er_player_id rs) \<longrightarrow>
           (\<forall>j<length rs. progress (cars (fst x) ! j)
              = rounded_progress env (snd x) (er_player_id (rs ! j)))))"

text \<open>
  Tick \<open>b\<close> reports, for each of the first \<open>n\<close> cars, at least the progress that tick
  \<open>a\<close> reports.
\<close>

definition progress_le :: "nat \<Rightarrow> tick \<Rightarrow> tick \<Rightarrow> bool" where
  "progress_le n a b = (\<forall>j<n. progress (cars a ! j) \<le> progress (cars b ! j))"

section \<open>Concrete inputs\<close>

text \<open>A car whose six slots all have the same tier and readiness.\<close>

definition uniform_car :: "tier \<Rightarrow> real \<Rightarrow> car_slots" where
  "uniform_car t r =
     \<lparr>engine = \<lparr>tier = t, readiness = r\<rparr>, tires = \<lparr>tier = t, readiness = r\<rparr>,
      suspension = \<lparr>tier = t, readiness = r\<rparr>, aero = \<lparr>tier = t, readiness = r\<rparr>,
      fuel = \<lparr>tier = t, readiness = r\<rparr>, electronics = \<lparr>tier = t, readiness = r\<rparr>\<rparr>"

definition locked_entry :: "string \<Rightarrow> car_slots \<Rightarrow> race_entry" where
  "locked_entry pid car =
     \<lparr>re_player_id = pid, re_username = pid, locked_car = Some car, entered_at = []\<rparr>"

text \<open>A race of one entrant, with a car of performance tier in full readiness.\<close>

definition solo_race :: "string \<Rightarrow> race" where
  "solo_race ev =
     \<lparr>race_id = ''r'', event_type = ev,
      entries = [locked_entry ''a'' (uniform_car Performance 100)]\<rparr>"

definition worn_engine_car :: car_slots where
  "worn_engine_car =
     (uniform_car Performance 100)\<lparr>engine := \<lparr>tier = Performance, readiness = 10\<rparr>\<rparr>"

text \<open>
  A sprint of two entrants: \<open>a\<close> has the better car but an engine of readiness 10, \<open>b\<close> a
  standard car in full readiness. With \<open>duel_rng\<close>, the first draw of \<open>a\<close> is 0.05 (the
  engine fails) and every other draw is 0.5 (luck delta 0).
\<close>

definition duel_race :: race where
  "duel_race =
     \<lparr>race_id = ''r'', event_type = ''sprint'',
      entries = [locked_entry ''a'' worn_engine_car,
                 locked_entry ''b'' (uniform_car Standard 100)]\<rparr>"

definition duel_rng :: "string \<Rightarrow> rng" where
  "duel_rng s = (if s = ''r:a'' then 0.05 ## sconst 0.5 else sconst 0.5)"

text \<open>
  A time trial of two entrants with cars of performance tier: the engine of \<open>b\<close> has the
  readiness 90, the car of \<open>a\<close> is in full readiness.
\<close>

definition nearly_perfect_car :: car_slots where
  "nearly_perfect_car =
     (uniform_car Performance 100)\<lparr>engine := \<lparr>tier = Performance, readiness = 90\<rparr>\<rparr>"

definition clamp_race :: race where
  "clamp_race =
     \<lparr>race_id = ''r'', event_type = ''time_trial'',
      entries = [locked_entry ''b'' nearly_perfect_car,
                 locked_entry ''a'' (uniform_car Performance 100)]\<rparr>"

text \<open>A track of two tiles, the first a chicane.\<close>

definition chicane_track :: track_data where
  "chicane_track =
     \<lparr>grid_width = 4, grid_height = 4,
      tiles = [\<lparr>tile_x = 1, tile_y = 1, tile_type = Chicane, tile_orientation = Horizontal\<rparr>,
               \<lparr>tile_x = 2, tile_y = 1, tile_type = Straight, tile_orientation = Horizontal\<rparr>],
      path_order = [(1, 1), (2, 1)]\<rparr>"

text \<open>An outcome of which only the id, the score and the DNF flag matter.\<close>

definition stub_result :: "string \<Rightarrow> real \<Rightarrow> bool \<Rightarrow> entry_result" where
  "stub_result pid score dnf =
     \<lparr>er_player_id = pid, er_username = pid, er_position = 1, er_result_score = score,
      er_build_quality = 0, er_event_fit = 0, er_readiness_score = 0, er_luck_delta = 0,
      er_counterfactual_position = 1, er_per_slot = Map.empty, er_luck_tag = [],
      er_dnf = dnf, er_dnf_slot = None\<rparr>"

section \<open>Facts about rounding\<close>

lemma py_round_cases:
  fixes x :: real
  obtains k :: int
    where "py_round nd x = of_int k / 10 ^ nd"
      and "\<bar>of_int k - x * 10 ^ nd\<bar> \<le> 1 / 2"
      and "k = \<lfloor>x * 10 ^ nd\<rfloor> \<or> k = \<lfloor>x * 10 ^ nd\<rfloor> + 1"
proof -
  define y where "y = x * 10 ^ nd"
  define f where "f = \<lfloor>y\<rfloor>"
  define d where "d = y - of_int f"
  define r where "r = (if d < 1 / 2 then f else if d > 1 / 2 then f + 1
                         else if even f then f else f + 1)"
  have pr: "py_round nd x = of_int r / 10 ^ nd"
    by (simp add: py_round_def Let_def r_def d_def f_def y_def)
  have d0: "0 \<le> d" and d1: "d < 1"
    unfolding d_def f_def by linarith+
  have "\<bar>of_int r - y\<bar> \<le> 1 / 2"
    using d0 d1 unfolding r_def d_def by (auto simp: abs_if)
  moreover have "r = f \<or> r = f + 1"
    unfolding r_def by auto
  ultimately show thesis
    using that [of r] pr unfolding y_def f_def by blast
qed

lemma py_round_nonneg: "0 \<le> x \<Longrightarrow> 0 \<le> py_round nd x"
proof -
  assume x: "0 \<le> x"
  obtain k :: int where k: "py_round nd x = of_int k / 10 ^ nd"
    and kk: "k = \<lfloor>x * 10 ^ nd\<rfloor> \<or> k = \<lfloor>x * 10 ^ nd\<rfloor> + 1"
    by (rule py_round_cases)
  have "0 \<le> x * 10 ^ nd" using x by simp
  then have "0 \<le> \<lfloor>x * 10 ^ nd\<rfloor>" by simp
  with kk have "0 \<le> k" by auto
  then show ?thesis by (simp add: k)
qed

lemma py_round_upper: "py_round nd x \<le> x + (1 / 2) / 10 ^ nd"
proof -
  obtain k :: int where k: "py_round nd x = of_int k / 10 ^ nd"
    and kk: "\<bar>of_int k - x * 10 ^ nd\<bar> \<le> 1 / 2"
    by (rule py_round_cases)
  have "of_int k \<le> x * 10 ^ nd + 1 / 2" using kk by linarith
  then have "of_int k / 10 ^ nd \<le> (x * 10 ^ nd + 1 / 2) / 10 ^ nd"
    by (rule divide_right_mono) simp
  then show ?thesis by (simp add: k add_divide_distrib)
qed

lemma py_round_zero: "py_round nd 0 = 0"
  by (simp add: py_round_def)

lemma py_round_mono:
  assumes "x \<le> y"
  shows "py_round nd x \<le> py_round nd y"
proof -
  obtain kx :: int where kx: "py_round nd x = of_int kx / 10 ^ nd"
    and bx: "\<bar>of_int kx - x * 10 ^ nd\<bar> \<le> 1 / 2"
    by (rule py_round_cases)
  obtain ky :: int where ky: "py_round nd y = of_int ky / 10 ^ nd"
    and by': "\<bar>of_int ky - y * 10 ^ nd\<bar> \<le> 1 / 2"
    by (rule py_round_cases)
  have le: "x * 10 ^ nd \<le> y * 10 ^ nd"
    using assms by (simp add: mult_right_mono)
  have "kx \<le> ky"
  proof (rule ccontr)
    assume "\<not> kx \<le> ky"
    then have "ky + 1 \<le> kx" by simp
    then have "real_of_int ky + 1 \<le> real_of_int kx" by linarith
    with bx by' le have "x * 10 ^ nd = y * 10 ^ nd" by linarith
    then have "x = y" by simp
    with kx ky have "kx = ky" by simp
    with \<open>\<not> kx \<le> ky\<close> show False by simp
  qed
  then have "real_of_int kx / 10 ^ nd \<le> real_of_int ky / 10 ^ nd"
    by (simp add: divide_right_mono)
  then show ?thesis by (simp add: kx ky)
qed

lemma py_round_of_int: "py_round nd (of_int k) = of_int k"
proof -
  have "real_of_int k * 10 ^ nd = of_int (k * 10 ^ nd)" by simp
  then have fl: "\<lfloor>real_of_int k * 10 ^ nd\<rfloor> = k * 10 ^ nd"
    by (metis floor_of_int)
  show ?thesis
    by (simp add: py_round_def Let_def fl)
qed

lemma py_round_one: "py_round nd 1 = 1"
  using py_round_of_int [of nd 1] by simp

lemma py_round_unit: "0 \<le> x \<Longrightarrow> x \<le> 1 \<Longrightarrow> 0 \<le> py_round nd x \<and> py_round nd x \<le> 1"
  using py_round_mono [of x 1 nd] py_round_nonneg [of x nd] by (simp add: py_round_one)

section \<open>Wear\<close>

lemma wear_amount_ge: "12 \<le> wear_amount ev s"
  by (auto simp: wear_amount_def WEAR_MULTIPLIERS_def EVENT_STRESSED_SLOTS_def BASE_WEAR_PCT_def Let_def split: option.splits if_splits)

lemma worn_part_props:
  assumes "0 \<le> readiness (get_slot car s)"
  shows "tier (worn_part car ev s) = tier (get_slot car s)"
    and "0 \<le> readiness (worn_part car ev s)"
    and "readiness (worn_part car ev s) \<le> readiness (get_slot car s)"
proof -
  let ?r = "readiness (get_slot car s)"
  let ?w = "wear_amount ev s"
  show "tier (worn_part car ev s) = tier (get_slot car s)"
    by (simp add: worn_part_def Let_def)
  have eq: "readiness (worn_part car ev s) = py_round 1 (max 0 (?r - ?w))"
    by (simp add: worn_part_def Let_def)
  show "0 \<le> readiness (worn_part car ev s)"
    unfolding eq by (rule py_round_nonneg) simp
  show "readiness (worn_part car ev s) \<le> ?r"
  proof (cases "?r - ?w \<le> 0")
    case True
    then show ?thesis using assms by (simp add: eq max_def py_round_zero)
  next
    case False
    have "py_round 1 (?r - ?w) \<le> ?r - ?w + (1 / 2) / 10 ^ 1" by (rule py_round_upper)
    moreover have "12 \<le> ?w" by (rule wear_amount_ge)
    ultimately show ?thesis using False by (simp add: eq max_def)
  qed
qed

lemma get_slot_apply_wear: "get_slot (apply_wear car ev) s = worn_part car ev s"
  by (cases s) (simp_all add: apply_wear_def)

lemma valid_car_slot: "valid_car car \<Longrightarrow> valid_slot_part (get_slot car s)"
  by (cases s) (simp_all add: valid_car_def SLOT_NAMES_def)

text \<open>
  Claim C9. For every car configuration (readiness of every slot in \<open>[0, 100]\<close>, as the
  data model enforces) and every event type, also one that is in no table,
  \<open>apply_wear\<close> leaves the tier of every slot unchanged and gives every slot a readiness
  between 0 and its value before the wear. The new readiness is the old one less the
  base wear times the multiplier of the event (1.0 for an event without one), times 1.5
  for a slot stressed by the event, floored at 0 and rounded to one decimal.
\<close>

theorem apply_wear_bounds:
  assumes "valid_car car"
  shows "tier (get_slot (apply_wear car ev) s) = tier (get_slot car s)
       \<and> 0 \<le> readiness (get_slot (apply_wear car ev) s)
       \<and> readiness (get_slot (apply_wear car ev) s) \<le> readiness (get_slot car s)
       \<and> readiness (get_slot (apply_wear car ev) s) =
           py_round 1 (max 0 (readiness (get_slot car s)
             - BASE_WEAR_PCT * (case WEAR_MULTIPLIERS ev of None \<Rightarrow> 1 | Some m \<Rightarrow> m)
               * (if s \<in> set (case EVENT_STRESSED_SLOTS ev of None \<Rightarrow> [] | Some l \<Rightarrow> l)
                  then 1.5 else 1)))"
proof -
  have "0 \<le> readiness (get_slot car s)"
    using valid_car_slot [OF assms, of s] by (simp add: valid_slot_part_def)
  then show ?thesis
    using worn_part_props [of car s ev]
    by (simp add: get_slot_apply_wear)
      (auto simp: worn_part_def wear_amount_def Let_def split: option.splits)
qed

lemma valid_uniform_car: "0 \<le> r \<Longrightarrow> r \<le> 100 \<Longrightarrow> valid_car (uniform_car t r)"
  by (simp add: valid_car_def uniform_car_def SLOT_NAMES_def valid_slot_part_def)

text \<open>
  The claim at a car of readiness 40 in an endurance race: the fuel slot is stressed and
  loses 40.5, so its readiness is floored at 0.
\<close>

theorem apply_wear_bounds_witness:
  "valid_car (uniform_car Upgraded 40)
   \<and> tier (get_slot (apply_wear (uniform_car Upgraded 40) ''endurance'') Fuel) = Upgraded
   \<and> readiness (get_slot (apply_wear (uniform_car Upgraded 40) ''endurance'') Fuel) \<le> 40
   \<and> 0 \<le> readiness (get_slot (apply_wear (uniform_car Upgraded 40) ''endurance'') Fuel)"
proof -
  have v: "valid_car (uniform_car Upgraded 40)"
    by (rule valid_uniform_car) simp_all
  show ?thesis
    using apply_wear_bounds [OF v, of "''endurance''" Fuel] v
    by (simp add: uniform_car_def)
qed

section \<open>Readiness score\<close>

lemma readiness_loop_sum:
  "(\<forall>s\<in>set ss. readiness (get_slot car s) < 50 \<longrightarrow> s \<in> dom ps) \<Longrightarrow>
   \<exists>ps'. readiness_loop ss car tot ps =
     Inr (tot + sum_list (map (\<lambda>s. slot_contribution (readiness (get_slot car s))) ss), ps')
     \<and> dom ps' = dom ps"
proof (induction ss arbitrary: tot ps)
  case Nil
  then show ?case by simp
next
  case (Cons s ss)
  let ?r = "readiness (get_slot car s)"
  show ?case
  proof (cases "?r < 50")
    case True
    with Cons.prems obtain sr where sr: "ps s = Some sr" by auto
    define ps1 where "ps1 = ps(s \<mapsto> sr\<lparr>readiness_penalty := 50 - ?r\<rparr>)"
    have d: "dom ps1 = dom ps" using sr by (auto simp: ps1_def)
    have step: "readiness_loop (s # ss) car tot ps
        = readiness_loop ss car (tot + slot_contribution ?r) ps1"
      using True sr by (simp add: Let_def slot_contribution_def ps1_def)
    have "\<forall>t\<in>set ss. readiness (get_slot car t) < 50 \<longrightarrow> t \<in> dom ps1"
      using Cons.prems d by simp
    from Cons.IH [OF this, of "tot + slot_contribution ?r"]
    show ?thesis unfolding step d by (simp add: add.assoc)
  next
    case False
    have step: "readiness_loop (s # ss) car tot ps
        = readiness_loop ss car (tot + slot_contribution ?r) ps"
      using False by (simp add: Let_def slot_contribution_def)
    have "\<forall>t\<in>set ss. readiness (get_slot car t) < 50 \<longrightarrow> t \<in> dom ps"
      using Cons.prems by simp
    from Cons.IH [OF this, of "tot + slot_contribution ?r"]
    show ?thesis unfolding step by (simp add: add.assoc)
  qed
qed

text \<open>
  Claim C6. The readiness score is the mean over the six slots of the readiness of the
  slot, where a slot of readiness \<open>r < 50\<close> counts with \<open>r\<close> less the shortfall
  \<open>50 - r\<close>, floored at 0, and a slot of readiness 50 or more counts with \<open>r\<close>. Since
  \<open>r\<close> is itself 50 less the shortfall, the slot counts with 50 less twice the shortfall:
  this is the double penalty.
  The function also records the shortfall in the per-slot breakdown, which therefore must
  hold an entry for each slot below 50; the breakdown that \<open>simulate_race\<close> passes
  holds all six (lemma \<open>event_fit_dom\<close>).
\<close>

theorem readiness_score_mean:
  assumes "\<forall>s\<in>set SLOT_NAMES. readiness (get_slot car s) < 50 \<longrightarrow> s \<in> dom ps"
  shows "\<exists>ps'. readiness_score car ps =
     Inr ((\<Sum>s\<leftarrow>SLOT_NAMES. let r = readiness (get_slot car s)
                               in if r < 50 then max 0 (r - (50 - r)) else r) / 6, ps')"
  using readiness_loop_sum [OF assms, of 0]
  by (auto simp: readiness_score_def slot_contribution_def Let_def SLOT_NAMES_def)

lemma event_fit_fold_dom:
  "dom (snd (fold (event_fit_step car w tw) ss acc)) = dom (snd acc) \<union> set ss"
  by (induction ss arbitrary: acc) (auto simp: event_fit_step_def Let_def)

lemma event_fit_dom:
  assumes "event_fit car ev = Inr (ef, ps)"
  shows "dom ps = set SLOT_NAMES"
proof -
  from assms obtain w where
    "ps = snd (fold (event_fit_step car w (sum_list (map w SLOT_NAMES))) SLOT_NAMES
                 (0, Map.empty))"
    by (auto simp: event_fit_def Let_def split: option.splits)
  then show ?thesis
    by (simp only: event_fit_fold_dom) simp
qed

text \<open>
  The claim at a car of readiness 40 in every slot: each slot counts with 30.
\<close>

theorem readiness_score_mean_witness:
  "\<exists>ps'. readiness_score (uniform_car Standard 40) (\<lambda>s. Some \<lparr>sr_tier = Standard, sr_readiness = 40, tier_score = 40, event_weight = 1, weighted_score = 40 / 6, readiness_penalty = 0\<rparr>) = Inr (30, ps')"
  using readiness_score_mean [of "uniform_car Standard 40" "\<lambda>s. Some \<lparr>sr_tier = Standard, sr_readiness = 40, tier_score = 40, event_weight = 1, weighted_score = 40 / 6, readiness_penalty = 0\<rparr>"]
  by (simp add: SLOT_NAMES_def uniform_car_def)

section \<open>Race simulation\<close>

subsection \<open>The loops return and what they return\<close>

lemma event_fit_returns:
  "ev \<in> dom EVENT_SLOT_WEIGHTS \<Longrightarrow> \<exists>ef ps. event_fit car ev = Inr (ef, ps)"
  by (auto simp: event_fit_def Let_def)

lemma readiness_score_returns:
  assumes "dom ps = set SLOT_NAMES"
  shows "\<exists>rs ps'. readiness_score car ps = Inr (rs, ps')"
proof -
  have "\<forall>s\<in>set SLOT_NAMES. readiness (get_slot car s) < 50 \<longrightarrow> s \<in> dom ps"
    using assms by simp
  from readiness_loop_sum [OF this, of 0] show ?thesis
    by (auto simp: readiness_score_def)
qed

lemma score_entry_returns:
  assumes "ev \<in> dom EVENT_SLOT_WEIGHTS"
  shows "\<exists>r. score_entry mk rid ev entry car = Inr r"
proof -
  obtain ef ps where ef: "event_fit car ev = Inr (ef, ps)"
    using event_fit_returns [OF assms] by blast
  obtain rs ps' where rs: "readiness_score car ps = Inr (rs, ps')"
    using readiness_score_returns [OF event_fit_dom [OF ef]] by blast
  show ?thesis
    by (simp add: score_entry_def Let_def ef rs split: prod.splits)
qed

lemma score_entry_fields:
  assumes "score_entry mk rid ev entry car = Inr r"
  shows "rr_player_id r = re_player_id entry"
    and "rr_build_quality r = build_quality car"
    and "\<exists>ps. event_fit car ev = Inr (rr_event_fit r, ps)
           \<and> (\<exists>ps'. readiness_score car ps = Inr (rr_readiness_score r, ps'))"
    and "rr_score r = (if rr_dnf r then 0
           else max 0 (min 100 (rr_build_quality r * bq_weight ev + rr_event_fit r * 0.35
                  + rr_readiness_score r * 0.25 + rr_luck_delta r)))"
    and "rr_dnf r = fst (fst (check_dnf car (seeded_rng mk rid (re_player_id entry))))"
  using assms
  by (auto simp: score_entry_def Let_def split: prod.splits sum.splits)

lemma raw_results_loop_returns:
  assumes "ev \<in> dom EVENT_SLOT_WEIGHTS"
  shows "\<exists>raws. raw_results_loop mk rid ev es = Inr raws"
proof (induction es)
  case Nil
  show ?case by simp
next
  case (Cons e es)
  then obtain raws where raws: "raw_results_loop mk rid ev es = Inr raws" by blast
  show ?case
  proof (cases "locked_car e")
    case None
    then show ?thesis using raws by simp
  next
    case (Some car)
    obtain r where "score_entry mk rid ev e car = Inr r"
      using score_entry_returns [OF assms] by blast
    then show ?thesis using raws Some by simp
  qed
qed

lemma raw_results_loop_entries:
  "raw_results_loop mk rid ev es = Inr raws \<Longrightarrow>
   list_all2 (\<lambda>r e. \<exists>car. locked_car e = Some car \<and> score_entry mk rid ev e car = Inr r)
     raws (filter (\<lambda>e. locked_car e \<noteq> None) es)"
proof (induction es arbitrary: raws)
  case Nil
  then show ?case by simp
next
  case (Cons e es)
  show ?case
  proof (cases "locked_car e")
    case None
    then show ?thesis using Cons by simp
  next
    case (Some car)
    with Cons.prems obtain r rest where r: "score_entry mk rid ev e car = Inr r"
      and rest: "raw_results_loop mk rid ev es = Inr rest" and raws: "raws = r # rest"
      by (auto split: sum.splits)
    show ?thesis using Cons.IH [OF rest] r Some by (simp add: raws)
  qed
qed

lemma results_loop_returns:
  "\<forall>pr\<in>set prs. rr_player_id (snd pr) \<in> dom cf \<Longrightarrow>
   \<exists>rs g'. results_loop cf prs g = Inr (rs, g')"
proof (induction prs arbitrary: g)
  case Nil
  show ?case by simp
next
  case (Cons pr prs)
  obtain pos r where pr: "pr = (pos, r)" by (cases pr)
  from Cons.prems obtain c where c: "cf (rr_player_id r) = Some c" by (auto simp: pr)
  obtain tag g1 where t: "luck_tag (rr_luck_delta r) g = (tag, g1)" by (cases "luck_tag (rr_luck_delta r) g")
  from Cons.IH [of g1] Cons.prems obtain rs g2 where "results_loop cf prs g1 = Inr (rs, g2)" by auto
  then show ?case by (simp add: pr c t)
qed

lemma results_loop_fields:
  "results_loop cf prs g = Inr (rs, g') \<Longrightarrow> list_all2 (result_of cf) rs prs"
proof (induction prs arbitrary: g rs g')
  case Nil
  then show ?case by simp
next
  case (Cons pr prs)
  obtain pos r where pr: "pr = (pos, r)" by (cases pr)
  obtain tag g1 where t: "luck_tag (rr_luck_delta r) g = (tag, g1)"
    by (cases "luck_tag (rr_luck_delta r) g")
  from Cons.prems obtain c where c: "cf (rr_player_id r) = Some c"
    by (auto simp: pr split: option.splits)
  from Cons.prems obtain rest g2 where rest: "results_loop cf prs g1 = Inr (rest, g2)"
    by (auto simp: pr c t split: sum.splits)
  from Cons.prems have "\<exists>res. rs = res # rest \<and> result_of cf res (pos, r)"
    by (auto simp: pr c t rest result_of_def)
  then obtain res where rs: "rs = res # rest" and res: "result_of cf res (pos, r)"
    by blast
  show ?case using Cons.IH [OF rest] res by (simp add: rs pr)
qed

subsection \<open>Ranks and sorting\<close>

text \<open>The dictionary of counterfactual ranks.\<close>

lemma cf_rank_fold_notin:
  "pid \<notin> fst ` set ns \<Longrightarrow> fold cf_rank_step (enumerate k ns) m pid = m pid"
  by (induction ns arbitrary: k m) (auto simp: cf_rank_step_def)

lemma cf_rank_fold_nth:
  "distinct (map fst ns) \<Longrightarrow> i < length ns \<Longrightarrow>
   fold cf_rank_step (enumerate k ns) m (fst (ns ! i)) = Some (k + i + 1)"
proof (induction ns arbitrary: k m i)
  case Nil
  then show ?case by simp
next
  case (Cons x ns)
  obtain pid v where x: "x = (pid, v)" by (cases x)
  show ?case
  proof (cases i)
    case 0
    have "pid \<notin> fst ` set ns" using Cons.prems(1) by (auto simp: x)
    then show ?thesis using 0 by (simp add: x cf_rank_fold_notin) (simp add: cf_rank_step_def)
  next
    case (Suc j)
    then show ?thesis using Cons.prems Cons.IH [of j "Suc k"] by (simp add: x)
  qed
qed

lemma cf_rank_of_nth:
  "distinct (map fst ns) \<Longrightarrow> i < length ns \<Longrightarrow> cf_rank_of ns (fst (ns ! i)) = Some (i + 1)"
  using cf_rank_fold_nth [of ns i 0 Map.empty] by (simp add: cf_rank_of_def)

lemma cf_rank_fold_dom:
  "dom (fold cf_rank_step (enumerate k ns) m) = dom m \<union> fst ` set ns"
  by (induction ns arbitrary: k m) (auto simp: cf_rank_step_def)

lemma cf_rank_of_dom: "dom (cf_rank_of ns) = fst ` set ns"
  by (simp add: cf_rank_of_def cf_rank_fold_dom)

lemma set_sort_desc: "set (sort_desc k xs) = set xs"
  by (simp add: sort_desc_def)

lemma mset_sort_desc: "mset (sort_desc k xs) = mset xs"
  by (simp add: sort_desc_def)

lemma length_sort_desc: "length (sort_desc k xs) = length xs"
  by (simp add: sort_desc_def)

lemma sort_desc_sorted: "sorted (map (\<lambda>x. - k x) (sort_desc k xs))"
  by (simp add: sort_desc_def sorted_sort_key)

lemma sort_desc_nth_mono:
  "i \<le> j \<Longrightarrow> j < length xs \<Longrightarrow> k (sort_desc k xs ! j) \<le> k (sort_desc k xs ! i)"
  using sorted_nth_mono [OF sort_desc_sorted [of k xs], of i j]
  by (simp add: length_sort_desc)

lemma neutral_scores_fst: "fst ` set (neutral_scores ev rs) = rr_player_id ` set rs"
  by (force simp: neutral_scores_def set_sort_desc)

lemma neutral_scores_unsorted:
  "neutral_scores ev R = sort_desc snd (map (\<lambda>r. (rr_player_id r, neutral_score ev r)) R)"
  by (simp add: neutral_scores_def)

lemma ranked_set: "set (ranked raws) = set raws"
  by (simp add: ranked_def set_sort_desc)

lemma ranked_length: "length (ranked raws) = length raws"
  by (simp add: ranked_def length_sort_desc)

subsection \<open>The whole simulation\<close>

lemma simulate_race_returns:
  assumes "event_type rc \<in> dom EVENT_SLOT_WEIGHTS"
  shows "\<exists>rs g'. simulate_race mk g rc = Inr (rs, g')"
proof -
  obtain raws where raws: "raw_results mk rc = Inr raws"
    using raw_results_loop_returns [OF assms] unfolding raw_results_def by blast
  let ?cf = "cf_rank_of (neutral_scores (event_type rc) (ranked raws))"
  have "\<forall>pr\<in>set (enumerate 1 (ranked raws)). rr_player_id (snd pr) \<in> dom ?cf"
    by (auto simp: cf_rank_of_dom neutral_scores_fst in_set_enumerate_eq)
  from results_loop_returns [OF this, of g] show ?thesis
    by (simp add: simulate_race_def raws Let_def)
qed

lemma simulate_race_fields:
  assumes "simulate_race mk g rc = Inr (rs, g')"
  obtains raws where "raw_results mk rc = Inr raws"
    and "list_all2 (result_of (cf_rank_of (neutral_scores (event_type rc) (ranked raws))))
           rs (enumerate 1 (ranked raws))"
proof -
  from assms obtain raws where raws: "raw_results mk rc = Inr raws"
    by (auto simp: simulate_race_def split: sum.splits)
  with assms have "results_loop (cf_rank_of (neutral_scores (event_type rc) (ranked raws)))
      (enumerate 1 (ranked raws)) g = Inr (rs, g')"
    by (simp add: simulate_race_def Let_def)
  from results_loop_fields [OF this] raws that show thesis by blast
qed

lemma raw_results_player_ids:
  assumes "raw_results mk rc = Inr raws"
  shows "map rr_player_id raws
       = map re_player_id (filter (\<lambda>e. locked_car e \<noteq> None) (entries rc))"
proof -
  have "list_all2 (\<lambda>r e. \<exists>car. locked_car e = Some car
          \<and> score_entry mk (race_id rc) (event_type rc) e car = Inr r)
        raws (filter (\<lambda>e. locked_car e \<noteq> None) (entries rc))"
    using assms unfolding raw_results_def by (rule raw_results_loop_entries)
  then have "list_all2 (\<lambda>r e. rr_player_id r = re_player_id e)
        raws (filter (\<lambda>e. locked_car e \<noteq> None) (entries rc))"
    by (rule list_all2_mono) (auto dest: score_entry_fields(1))
  then show ?thesis
    by (simp add: list_all2_conv_all_nth list_eq_iff_nth_eq)
qed

lemma raw_results_member:
  assumes "raw_results mk rc = Inr raws" and "r \<in> set raws"
  shows "\<exists>entry car. entry \<in> set (entries rc) \<and> locked_car entry = Some car
           \<and> score_entry mk (race_id rc) (event_type rc) entry car = Inr r"
proof -
  have la: "list_all2 (\<lambda>r e. \<exists>car. locked_car e = Some car
          \<and> score_entry mk (race_id rc) (event_type rc) e car = Inr r)
        raws (filter (\<lambda>e. locked_car e \<noteq> None) (entries rc))"
    using assms(1) unfolding raw_results_def by (rule raw_results_loop_entries)
  from assms(2) obtain i where i: "i < length raws" and r: "r = raws ! i"
    by (auto simp: in_set_conv_nth)
  let ?es = "filter (\<lambda>e. locked_car e \<noteq> None) (entries rc)"
  have len: "length raws = length ?es" using la by (rule list_all2_lengthD)
  from list_all2_nthD [OF la i] obtain car where
    "locked_car (?es ! i) = Some car"
    "score_entry mk (race_id rc) (event_type rc) (?es ! i) car = Inr r"
    unfolding r by blast
  moreover have "?es ! i \<in> set (entries rc)"
    using i len nth_mem [of i ?es] by auto
  ultimately show ?thesis by blast
qed

lemma results_nth:
  assumes "list_all2 (result_of cf) rs (enumerate 1 R)" and "i < length rs"
  shows "result_of cf (rs ! i) (Suc i, R ! i)"
proof -
  have len: "length rs = length R"
    using list_all2_lengthD [OF assms(1)] by simp
  from list_all2_nthD [OF assms] show ?thesis
    using assms(2) len by (simp add: nth_enumerate_eq)
qed

lemma raw_score_dnf:
  assumes "raw_results mk rc = Inr raws" and "r \<in> set raws" and "rr_dnf r"
  shows "rr_score r = 0"
proof -
  from raw_results_member [OF assms(1,2)] obtain entry car where
    "score_entry mk (race_id rc) (event_type rc) entry car = Inr r" by blast
  from score_entry_fields(4) [OF this] assms(3) show ?thesis by simp
qed

lemmas simulate_eval = simulate_race_def raw_results_def score_entry_def seeded_rng_def check_dnf_def
  SLOT_NAMES_def build_quality_def event_fit_def event_fit_step_def event_penalty_def
  readiness_score_def uniform_def random_draw_def luck_range_def bq_weight_def ranked_def sort_desc_def
  neutral_scores_def neutral_score_def cf_rank_of_def cf_rank_step_def luck_tag_def choice_def
  LUCK_TAGS_POSITIVE_def LUCK_TAGS_NEGATIVE_def EVENT_SLOT_WEIGHTS_def uniform_car_def Let_def
  enumerate_eq_zip locked_entry_def solo_race_def duel_race_def duel_rng_def worn_engine_car_def

subsection \<open>Composite score\<close>

lemma raw_results_of_entry:
  assumes "raw_results mk rc = Inr raws"
    and "entry \<in> set (entries rc)" and "locked_car entry = Some car"
  shows "\<exists>r\<in>set raws. score_entry mk (race_id rc) (event_type rc) entry car = Inr r"
proof -
  let ?es = "filter (\<lambda>e. locked_car e \<noteq> None) (entries rc)"
  have la: "list_all2 (\<lambda>r e. \<exists>car. locked_car e = Some car
          \<and> score_entry mk (race_id rc) (event_type rc) e car = Inr r) raws ?es"
    using assms(1) unfolding raw_results_def by (rule raw_results_loop_entries)
  have len: "length raws = length ?es" using la by (rule list_all2_lengthD)
  have "entry \<in> set ?es" using assms(2,3) by simp
  then have "\<exists>i<length ?es. ?es ! i = entry"
    unfolding in_set_conv_nth .
  then obtain i where i: "i < length ?es" and e: "?es ! i = entry"
    by blast
  from i len have i': "i < length raws" by simp
  from list_all2_nthD [OF la i'] e assms(3)
  have "score_entry mk (race_id rc) (event_type rc) entry car = Inr (raws ! i)" by auto
  moreover have "raws ! i \<in> set raws" using i' by simp
  ultimately show ?thesis by blast
qed

text \<open>
  Claim C5. For every entry with a locked car of a race on which \<open>simulate_race\<close>
  returns, the composite score of the entrant is 0 if the entrant did not finish, and
  otherwise build quality times \<open>w\<close> plus event fit times 0.35 plus readiness score
  times 0.25 plus the luck delta, clamped to \<open>[0, 100]\<close>, with \<open>w = 0.50\<close> for the event
  type \<open>time_trial\<close> and \<open>w = 0.40\<close> for every other event type. The sub-scores are the
  unrounded values computed from the locked car, and the returned results hold a result
  of this entrant whose score is the composite score rounded to two decimals.
\<close>

theorem simulate_race_composite_score:
  assumes "simulate_race mk g rc = Inr (rs, g')"
    and "entry \<in> set (entries rc)" and "locked_car entry = Some car"
  shows "\<exists>r. score_entry mk (race_id rc) (event_type rc) entry car = Inr r
         \<and> rr_build_quality r = build_quality car
         \<and> (\<exists>ps. event_fit car (event_type rc) = Inr (rr_event_fit r, ps)
              \<and> (\<exists>ps'. readiness_score car ps = Inr (rr_readiness_score r, ps')))
         \<and> rr_score r =
             (if rr_dnf r then 0
              else max 0 (min 100
                (rr_build_quality r * (if event_type rc = ''time_trial'' then 0.50 else 0.40)
                 + rr_event_fit r * 0.35 + rr_readiness_score r * 0.25 + rr_luck_delta r)))
         \<and> (\<exists>res\<in>set rs. er_player_id res = re_player_id entry
                \<and> er_dnf res = rr_dnf r
                \<and> er_result_score res = py_round 2 (rr_score r))"
proof -
  from assms(1) obtain raws where raws: "raw_results mk rc = Inr raws"
    and la: "list_all2 (result_of (cf_rank_of (neutral_scores (event_type rc) (ranked raws))))
           rs (enumerate 1 (ranked raws))"
    by (rule simulate_race_fields)
  from raw_results_of_entry [OF raws assms(2,3)] obtain r where
    r: "r \<in> set raws" and se: "score_entry mk (race_id rc) (event_type rc) entry car = Inr r"
    by blast
  have len: "length rs = length (ranked raws)"
    using list_all2_lengthD [OF la] by simp
  from r have "r \<in> set (ranked raws)" by (simp add: ranked_set)
  then obtain i where i: "i < length rs" and ri: "ranked raws ! i = r"
    using len by (auto simp: in_set_conv_nth)
  have ro: "result_of (cf_rank_of (neutral_scores (event_type rc) (ranked raws)))
      (rs ! i) (Suc i, r)"
    using results_nth [OF la i] ri by simp
  have "rs ! i \<in> set rs" using i by simp
  moreover have "er_player_id (rs ! i) = re_player_id entry \<and> er_dnf (rs ! i) = rr_dnf r
      \<and> er_result_score (rs ! i) = py_round 2 (rr_score r)"
    using ro score_entry_fields(1) [OF se] by (simp add: result_of_def)
  ultimately have res: "\<exists>res\<in>set rs. er_player_id res = re_player_id entry
                \<and> er_dnf res = rr_dnf r
                \<and> er_result_score res = py_round 2 (rr_score r)"
    by blast
  show ?thesis
    using se res score_entry_fields [OF se]
    by (intro exI [of _ r]) (simp add: bq_weight_def)
qed

text \<open>
  The claim at a time trial of one entrant with a perfect car and luck delta 0: the
  composite score \<open>50 + 35 + 25\<close> is clamped to 100.
\<close>

theorem simulate_race_composite_score_witness:
  "\<exists>rs g'. simulate_race (\<lambda>_. sconst 0.5) (sconst 0) (solo_race ''time_trial'') = Inr (rs, g')
     \<and> locked_entry ''a'' (uniform_car Performance 100) \<in> set (entries (solo_race ''time_trial''))
     \<and> locked_car (locked_entry ''a'' (uniform_car Performance 100))
          = Some (uniform_car Performance 100)
     \<and> (\<exists>r::raw_result. rr_score r = 100 \<and> \<not> rr_dnf r
           \<and> rr_build_quality r * 0.50 + rr_event_fit r * 0.35
                + rr_readiness_score r * 0.25 + rr_luck_delta r = 110
           \<and> (\<exists>res\<in>set rs. er_player_id res = ''a'' \<and> er_result_score res = 100))"
proof -
  let ?e = "locked_entry ''a'' (uniform_car Performance 100)"
  let ?rc = "solo_race ''time_trial''"
  have ev: "event_type ?rc \<in> dom EVENT_SLOT_WEIGHTS"
    by (simp add: solo_race_def EVENT_SLOT_WEIGHTS_def)
  obtain rs g' where sim: "simulate_race (\<lambda>_. sconst 0.5) (sconst 0) ?rc = Inr (rs, g')"
    using simulate_race_returns [OF ev] by blast
  have e: "?e \<in> set (entries ?rc)" by (simp add: solo_race_def)
  have c: "locked_car ?e = Some (uniform_car Performance 100)" by (simp add: locked_entry_def)
  have val: "map_sum id (\<lambda>r. (rr_score r, rr_dnf r, rr_build_quality r * 0.50 + rr_event_fit r * 0.35
                + rr_readiness_score r * 0.25 + rr_luck_delta r))
      (score_entry (\<lambda>_. sconst 0.5) (race_id ?rc) (event_type ?rc) ?e (uniform_car Performance 100))
      = Inr (100, False, 110)"
    by (simp add: simulate_eval)
  from simulate_race_composite_score [OF sim e c] obtain r where
    se: "score_entry (\<lambda>_. sconst 0.5) (race_id ?rc) (event_type ?rc) ?e
           (uniform_car Performance 100) = Inr r"
    and res: "\<exists>res\<in>set rs. er_player_id res = re_player_id ?e
                \<and> er_dnf res = rr_dnf r
                \<and> er_result_score res = py_round 2 (rr_score r)"
    by blast
  from val se have r: "rr_score r = 100" "\<not> rr_dnf r"
    "rr_build_quality r * 0.50 + rr_event_fit r * 0.35
                + rr_readiness_score r * 0.25 + rr_luck_delta r = 110"
    by simp_all
  have "py_round 2 100 = 100" using py_round_of_int [of 2 100] by simp
  with res r have "\<exists>res\<in>set rs. er_player_id res = ''a'' \<and> er_result_score res = 100"
    by (auto simp: locked_entry_def)
  with r have "\<exists>r::raw_result. rr_score r = 100 \<and> \<not> rr_dnf r
           \<and> rr_build_quality r * 0.50 + rr_event_fit r * 0.35
                + rr_readiness_score r * 0.25 + rr_luck_delta r = 110
           \<and> (\<exists>res\<in>set rs. er_player_id res = ''a'' \<and> er_result_score res = 100)"
    by (auto intro!: exI [of _ r])
  with sim e c show ?thesis
    by (auto intro!: exI [of _ rs] exI [of _ g'])
qed

subsection \<open>Positions\<close>

text \<open>
  Claim C3, for a race whose event type has an entry in \<open>EVENT_SLOT_WEIGHTS\<close>.
  \<open>simulate_race\<close> returns; the player ids of the results are, as a multiset, those of
  the entries with a locked car (an entry without one is skipped); the positions are
  \<open>1, \<dots>, k\<close> in this order; an entrant who did not finish has the score 0 and a later
  position than every entrant with a positive score.
\<close>

theorem simulate_race_positions:
  assumes "event_type rc \<in> dom EVENT_SLOT_WEIGHTS"
  shows "\<exists>rs g'. simulate_race mk g rc = Inr (rs, g')
       \<and> mset (map er_player_id rs)
           = mset (map re_player_id (filter (\<lambda>e. locked_car e \<noteq> None) (entries rc)))
       \<and> map er_position rs = [1..<Suc (length rs)]
       \<and> (\<forall>a\<in>set rs. er_dnf a \<longrightarrow> er_result_score a = 0)
       \<and> (\<forall>a\<in>set rs. \<forall>b\<in>set rs.
             er_dnf a \<and> 0 < er_result_score b \<longrightarrow> er_position b < er_position a)"
proof -
  obtain rs g' where sim: "simulate_race mk g rc = Inr (rs, g')"
    using simulate_race_returns [OF assms] by blast
  then obtain raws where raws: "raw_results mk rc = Inr raws"
    and la: "list_all2 (result_of (cf_rank_of (neutral_scores (event_type rc) (ranked raws))))
           rs (enumerate 1 (ranked raws))"
    by (rule simulate_race_fields)
  let ?R = "ranked raws"
  let ?cf = "cf_rank_of (neutral_scores (event_type rc) ?R)"
  have len: "length rs = length ?R"
    using list_all2_lengthD [OF la] by simp
  have nth: "result_of ?cf (rs ! i) (Suc i, ?R ! i)" if "i < length rs" for i
    using la that by (rule results_nth)
  have pids: "map er_player_id rs = map rr_player_id ?R"
    using nth len by (auto simp: list_eq_iff_nth_eq result_of_def)
  have "mset (map rr_player_id ?R) = mset (map rr_player_id raws)"
    by (simp add: ranked_def mset_sort_desc)
  then have c1: "mset (map er_player_id rs)
      = mset (map re_player_id (filter (\<lambda>e. locked_car e \<noteq> None) (entries rc)))"
    by (simp add: pids raw_results_player_ids [OF raws])
  have c2: "map er_position rs = [1..<Suc (length rs)]"
  proof (rule nth_equalityI)
    show "length (map er_position rs) = length [1..<Suc (length rs)]"
      by (simp del: upt_Suc)
  next
    fix i assume "i < length (map er_position rs)"
    then have i: "i < length rs" by simp
    have "er_position (rs ! i) = Suc i"
      using nth [OF i] by (simp add: result_of_def)
    then show "map er_position rs ! i = [1..<Suc (length rs)] ! i"
      using i by (simp del: upt_Suc)
  qed
  have dnf0: "rr_score (?R ! i) = 0" if "i < length rs" "er_dnf (rs ! i)" for i
  proof -
    have "?R ! i \<in> set raws"
      using that(1) len ranked_set [of raws] nth_mem [of i ?R] by auto
    moreover have "rr_dnf (?R ! i)"
      using nth [OF that(1)] that(2) by (simp add: result_of_def)
    ultimately show ?thesis using raw_score_dnf [OF raws] by blast
  qed
  have c3: "\<forall>a\<in>set rs. er_dnf a \<longrightarrow> er_result_score a = 0"
  proof (intro ballI impI)
    fix a assume "a \<in> set rs" "er_dnf a"
    then obtain i where i: "i < length rs" and a: "a = rs ! i"
      by (auto simp: in_set_conv_nth)
    show "er_result_score a = 0"
      using nth [OF i] dnf0 [OF i] \<open>er_dnf a\<close>
      by (simp add: a result_of_def py_round_zero)
  qed
  have c4: "\<forall>a\<in>set rs. \<forall>b\<in>set rs.
      er_dnf a \<and> 0 < er_result_score b \<longrightarrow> er_position b < er_position a"
  proof (intro ballI impI)
    fix a b assume "a \<in> set rs" "b \<in> set rs" and ab: "er_dnf a \<and> 0 < er_result_score b"
    then obtain i j where i: "i < length rs" and a: "a = rs ! i"
      and j: "j < length rs" and b: "b = rs ! j"
      by (auto simp: in_set_conv_nth)
    have sa: "rr_score (?R ! i) = 0" using dnf0 [OF i] ab by (simp add: a)
    have "0 < py_round 2 (rr_score (?R ! j))"
      using nth [OF j] ab by (simp add: b result_of_def)
    then have sb: "0 < rr_score (?R ! j)"
      using py_round_mono [of "rr_score (?R ! j)" 0 2] by (auto simp: py_round_zero not_le [symmetric])
    have "j < i"
    proof (rule ccontr)
      assume "\<not> j < i"
      then have "i \<le> j" by simp
      from sort_desc_nth_mono [OF this, of raws rr_score] j len
      have "rr_score (?R ! j) \<le> rr_score (?R ! i)"
        by (simp add: ranked_def length_sort_desc)
      with sa sb show False by simp
    qed
    then show "er_position b < er_position a"
      using nth [OF i] nth [OF j] by (simp add: a b result_of_def)
  qed
  from sim c1 c2 c3 c4 show ?thesis by blast
qed

text \<open>
  The claim at the sprint of two entrants in which \<open>a\<close> does not finish.
\<close>

theorem simulate_race_positions_witness:
  "event_type duel_race \<in> dom EVENT_SLOT_WEIGHTS
   \<and> (\<exists>rs g'. simulate_race duel_rng (sconst 0) duel_race = Inr (rs, g')
       \<and> mset (map er_player_id rs) = {#''a'', ''b''#}
       \<and> map er_position rs = [1, 2]
       \<and> (\<forall>a\<in>set rs. er_dnf a \<longrightarrow> er_result_score a = 0)
       \<and> (\<forall>a\<in>set rs. \<forall>b\<in>set rs.
             er_dnf a \<and> 0 < er_result_score b \<longrightarrow> er_position b < er_position a))"
proof -
  have ev: "event_type duel_race \<in> dom EVENT_SLOT_WEIGHTS"
    by (simp add: duel_race_def EVENT_SLOT_WEIGHTS_def)
  from simulate_race_positions [OF ev, of duel_rng "sconst 0"] obtain rs g' where
    sim: "simulate_race duel_rng (sconst 0) duel_race = Inr (rs, g')"
    and ids: "mset (map er_player_id rs)
           = mset (map re_player_id (filter (\<lambda>e. locked_car e \<noteq> None) (entries duel_race)))"
    and pos: "map er_position rs = [1..<Suc (length rs)]"
    and rest: "\<forall>a\<in>set rs. er_dnf a \<longrightarrow> er_result_score a = 0"
      "\<forall>a\<in>set rs. \<forall>b\<in>set rs.
             er_dnf a \<and> 0 < er_result_score b \<longrightarrow> er_position b < er_position a"
    by blast
  have ids': "mset (map er_player_id rs) = {#''a'', ''b''#}"
    using ids by (simp add: duel_race_def locked_entry_def)
  then have "size (mset (map er_player_id rs)) = 2" by simp
  then have "length rs = 2" by simp
  with pos have p12: "map er_position rs = [1, 2]" by (simp add: upt_rec)
  show ?thesis
    using ev sim ids' p12 rest
    by (intro conjI exI [of _ rs] exI [of _ g'])
qed

text \<open>
  Claim C3 does not hold for every race: for an event type without an entry in
  \<open>EVENT_SLOT_WEIGHTS\<close> the lookup in \<open>_event_fit\<close> raises \<open>KeyError\<close> on the first
  entry with a locked car, and no result is returned.
\<close>

theorem unknown_event_type_raises:
  "simulate_race (\<lambda>_. sconst 0.5) (sconst 0) (solo_race ''drag'') = Inl KeyError"
  by (simp add: simulate_eval)

subsection \<open>Counterfactual position\<close>

text \<open>
  What the code computes as the counterfactual position. It is the 1-based index of the
  id of the entrant in the list of the ranked entrants sorted again, stably and in
  non-increasing order, by the score of the counterfactual pass (build quality times
  \<open>w\<close> plus event fit times 0.35 plus readiness score times 0.25). That pass applies
  neither the clamp nor the rule that a DNF scores 0, which the scoring pass applies.
  For pairwise distinct player ids, the counterfactual position equals the position for
  every entrant exactly when the ranked list is already in non-increasing order of the
  score of the counterfactual pass.
\<close>

lemma counterfactual_position_rank:
  assumes sim: "simulate_race mk g rc = Inr (rs, g')"
    and raws: "raw_results mk rc = Inr raws"
    and dist: "distinct (map re_player_id (filter (\<lambda>e. locked_car e \<noteq> None) (entries rc)))"
  shows "(\<forall>i<length rs.
            1 \<le> er_counterfactual_position (rs ! i)
          \<and> er_counterfactual_position (rs ! i) \<le> length rs
          \<and> fst (neutral_scores (event_type rc) (ranked raws)
                   ! (er_counterfactual_position (rs ! i) - 1)) = er_player_id (rs ! i))
       \<and> ((\<forall>res\<in>set rs. er_counterfactual_position res = er_position res)
            \<longleftrightarrow> sorted_wrt (\<lambda>a b. neutral_score (event_type rc) a
                                     \<ge> neutral_score (event_type rc) b) (ranked raws))"
proof -
  define ev where "ev = event_type rc"
  define R where "R = ranked raws"
  define N where "N = map (\<lambda>r. (rr_player_id r, neutral_score ev r)) R"
  define NS where "NS = neutral_scores ev R"
  define cf where "cf = cf_rank_of NS"
  from sim raws have la: "list_all2 (result_of cf) rs (enumerate 1 R)"
    by (auto elim!: simulate_race_fields simp: cf_def NS_def R_def ev_def)
  have len: "length rs = length R"
    using list_all2_lengthD [OF la] by simp
  have nth: "result_of cf (rs ! i) (Suc i, R ! i)" if "i < length rs" for i
    using la that by (rule results_nth)
  have NS: "NS = sort_desc snd N"
    by (simp add: NS_def N_def neutral_scores_def)
  have lenN: "length N = length R" by (simp add: N_def)
  have lenNS: "length NS = length R" by (simp add: NS length_sort_desc lenN)
  have fstN: "map fst N = map rr_player_id R" by (simp add: N_def comp_def)
  have "mset (map rr_player_id R) = mset (map rr_player_id raws)"
    by (simp add: R_def ranked_def mset_sort_desc)
  moreover have "distinct (map rr_player_id raws)"
    using dist by (simp add: raw_results_player_ids [OF raws])
  ultimately have dR: "distinct (map rr_player_id R)"
    using mset_eq_imp_distinct_iff by blast
  then have dN: "distinct (map fst N)" by (simp add: fstN)
  have "mset (map fst NS) = mset (map fst N)"
    by (simp add: NS mset_sort_desc)
  with dN have dNS: "distinct (map fst NS)"
    using mset_eq_imp_distinct_iff by blast
  have cfNS: "cf (fst (NS ! j)) = Some (j + 1)" if "j < length R" for j
    unfolding cf_def using dNS that lenNS by (simp add: cf_rank_of_nth)
  have pidN: "fst (N ! i) = rr_player_id (R ! i)" if "i < length R" for i
    using that by (simp add: N_def)
  have setNS: "set NS = set N" by (simp add: NS set_sort_desc)
  \<comment> \<open>the index of each entrant in the re-sorted list\<close>
  have idx: "\<exists>j<length R. fst (NS ! j) = rr_player_id (R ! i)
               \<and> er_counterfactual_position (rs ! i) = j + 1"
    if i: "i < length rs" for i
  proof -
    have "N ! i \<in> set NS" using i len lenN setNS by simp
    then obtain j where j: "j < length R" and e: "NS ! j = N ! i"
      using lenNS by (auto simp: in_set_conv_nth)
    have "cf (rr_player_id (R ! i)) = Some (j + 1)"
      using cfNS [OF j] pidN [of i] i len by (simp add: e)
    moreover have "cf (rr_player_id (R ! i)) = Some (er_counterfactual_position (rs ! i))"
      using nth [OF i] by (simp add: result_of_def)
    ultimately show ?thesis
      using j e pidN [of i] i len by auto
  qed
  have part1: "\<forall>i<length rs.
            1 \<le> er_counterfactual_position (rs ! i)
          \<and> er_counterfactual_position (rs ! i) \<le> length rs
          \<and> fst (NS ! (er_counterfactual_position (rs ! i) - 1)) = er_player_id (rs ! i)"
  proof (intro allI impI)
    fix i assume i: "i < length rs"
    from idx [OF i] obtain j where "j < length R" "fst (NS ! j) = rr_player_id (R ! i)"
      "er_counterfactual_position (rs ! i) = j + 1" by blast
    moreover have "er_player_id (rs ! i) = rr_player_id (R ! i)"
      using nth [OF i] by (simp add: result_of_def)
    ultimately show "1 \<le> er_counterfactual_position (rs ! i)
          \<and> er_counterfactual_position (rs ! i) \<le> length rs
          \<and> fst (NS ! (er_counterfactual_position (rs ! i) - 1)) = er_player_id (rs ! i)"
      using len by simp
  qed
  have sortedN: "sorted (map (\<lambda>x. - snd x) N)
      \<longleftrightarrow> sorted_wrt (\<lambda>a b. neutral_score ev a \<ge> neutral_score ev b) R"
    by (simp add: N_def sorted_map sorted_wrt_map)
  have part2: "(\<forall>res\<in>set rs. er_counterfactual_position res = er_position res)
            \<longleftrightarrow> sorted_wrt (\<lambda>a b. neutral_score ev a \<ge> neutral_score ev b) R"
  proof
    assume "sorted_wrt (\<lambda>a b. neutral_score ev a \<ge> neutral_score ev b) R"
    then have "sorted (map (\<lambda>x. - snd x) N)" by (simp add: sortedN)
    then have same: "NS = N"
      unfolding NS sort_desc_def by (rule sort_key_id_if_sorted)
    show "\<forall>res\<in>set rs. er_counterfactual_position res = er_position res"
    proof
      fix res assume "res \<in> set rs"
      then obtain i where i: "i < length rs" and res: "res = rs ! i"
        by (auto simp: in_set_conv_nth)
      have "cf (rr_player_id (R ! i)) = Some (i + 1)"
        using cfNS [of i] pidN [of i] i len by (simp add: same)
      then show "er_counterfactual_position res = er_position res"
        using nth [OF i] by (simp add: res result_of_def)
    qed
  next
    assume eq: "\<forall>res\<in>set rs. er_counterfactual_position res = er_position res"
    have "NS = N"
    proof (rule nth_equalityI)
      show "length NS = length N" by (simp add: lenNS lenN)
    next
      fix i assume "i < length NS"
      then have i: "i < length rs" by (simp add: lenNS len)
      from idx [OF i] obtain j where j: "j < length R"
        and fj: "fst (NS ! j) = rr_player_id (R ! i)"
        and cj: "er_counterfactual_position (rs ! i) = j + 1" by blast
      have "er_counterfactual_position (rs ! i) = Suc i"
        using eq i nth [OF i] by (simp add: result_of_def)
      with cj have ji: "j = i" by simp
      have "NS ! i \<in> set N" using i len lenNS setNS nth_mem [of i NS] by simp
      then obtain k where k: "k < length R" and e: "NS ! i = N ! k"
        using lenN by (auto simp: in_set_conv_nth)
      have "map fst N ! k = map fst N ! i"
        using fj pidN [of i] i len k lenN by (simp add: ji e)
      moreover have "k < length (map fst N)" "i < length (map fst N)"
        using k i len lenN by simp_all
      ultimately have "k = i"
        using dN nth_eq_iff_index_eq by blast
      then show "NS ! i = N ! i" by (simp add: e)
    qed
    moreover have "sorted (map (\<lambda>x. - snd x) NS)"
      unfolding NS by (rule sort_desc_sorted)
    ultimately show "sorted_wrt (\<lambda>a b. neutral_score ev a \<ge> neutral_score ev b) R"
      by (simp add: sortedN)
  qed
  from part1 part2 show ?thesis
    by (simp add: NS_def R_def ev_def)
qed

text \<open>
  The lemma at the sprint of two entrants; the player ids \<open>a\<close> and \<open>b\<close> are distinct.
\<close>

lemma counterfactual_position_rank_witness:
  "\<exists>rs g' raws. simulate_race duel_rng (sconst 0) duel_race = Inr (rs, g')
     \<and> raw_results duel_rng duel_race = Inr raws
     \<and> distinct (map re_player_id (filter (\<lambda>e. locked_car e \<noteq> None) (entries duel_race)))
     \<and> (\<forall>i<length rs.
            1 \<le> er_counterfactual_position (rs ! i)
          \<and> er_counterfactual_position (rs ! i) \<le> length rs
          \<and> fst (neutral_scores (event_type duel_race) (ranked raws)
                   ! (er_counterfactual_position (rs ! i) - 1)) = er_player_id (rs ! i))
     \<and> ((\<forall>res\<in>set rs. er_counterfactual_position res = er_position res)
            \<longleftrightarrow> sorted_wrt (\<lambda>a b. neutral_score (event_type duel_race) a
                                     \<ge> neutral_score (event_type duel_race) b) (ranked raws))"
proof -
  have ev: "event_type duel_race \<in> dom EVENT_SLOT_WEIGHTS"
    by (simp add: duel_race_def EVENT_SLOT_WEIGHTS_def)
  obtain rs g' where sim: "simulate_race duel_rng (sconst 0) duel_race = Inr (rs, g')"
    using simulate_race_returns [OF ev] by blast
  then obtain raws where raws: "raw_results duel_rng duel_race = Inr raws"
    by (rule simulate_race_fields)
  have d: "distinct (map re_player_id
      (filter (\<lambda>e. locked_car e \<noteq> None) (entries duel_race)))"
    by (simp add: duel_race_def locked_entry_def)
  from counterfactual_position_rank [OF sim raws d] sim raws d show ?thesis
    by blast
qed


text \<open>
  The counterfactual pass leaves out the clamp as well. In the time trial below nobody
  fails and both luck deltas are 0; both composite scores exceed 100 and are clamped to
  100, so the stable sort keeps the order of entry \<open>b, a\<close>. The counterfactual pass
  compares the unclamped 109.58 of \<open>b\<close> with the 110 of \<open>a\<close> and ranks \<open>a\<close> first.
\<close>

lemma zero_luck_clamp_counterfactual:
  "map_sum id (map (\<lambda>r. (er_player_id r, er_dnf r, er_luck_delta r, er_result_score r,
                          er_position r, er_counterfactual_position r)) \<circ> fst)
      (simulate_race (\<lambda>_. sconst 0.5) (sconst 0) clamp_race)
     = Inr [(''b'', False, 0, 100, 1, 2), (''a'', False, 0, 100, 2, 1)]"
  by (simp add: simulate_eval clamp_race_def nearly_perfect_car_def py_round_def)

subsection \<open>Determinism\<close>

text \<open>
  Claim C1. The luck tag is drawn by \<open>random.choice\<close> from the generator of the module
  \<open>random\<close>, not from the generator seeded for the entrant. Two calls on the same race
  (one entrant, luck delta 12) that find the shared generator in different states return
  different luck tags.
\<close>

theorem luck_tag_reads_shared_generator:
  "map_sum id (map er_luck_tag \<circ> fst)
      (simulate_race (\<lambda>_. sconst 0.9) (sconst 0) (solo_race ''sprint''))
     = Inr [''Perfect run through all sectors'']
   \<and> map_sum id (map er_luck_tag \<circ> fst)
      (simulate_race (\<lambda>_. sconst 0.9) (sconst 1) (solo_race ''sprint''))
     = Inr [''Clean air throughout'']"
  by (simp add: simulate_eval)

lemma results_loop_modulo_tag:
  "results_loop cf prs g = Inr (rs, g1) \<Longrightarrow>
   \<exists>rs' h1. results_loop cf prs h = Inr (rs', h1)
     \<and> map (\<lambda>r. r\<lparr>er_luck_tag := []\<rparr>) rs' = map (\<lambda>r. r\<lparr>er_luck_tag := []\<rparr>) rs"
proof (induction prs arbitrary: g h rs g1)
  case Nil
  then show ?case by simp
next
  case (Cons pr prs)
  obtain pos r where pr: "pr = (pos, r)" by (cases pr)
  obtain tag g2 where t: "luck_tag (rr_luck_delta r) g = (tag, g2)"
    by (cases "luck_tag (rr_luck_delta r) g")
  obtain tag' h2 where t': "luck_tag (rr_luck_delta r) h = (tag', h2)"
    by (cases "luck_tag (rr_luck_delta r) h")
  from Cons.prems obtain c where c: "cf (rr_player_id r) = Some c"
    by (auto simp: pr split: option.splits)
  from Cons.prems obtain rest g3 where rest: "results_loop cf prs g2 = Inr (rest, g3)"
    by (auto simp: pr c t split: sum.splits)
  from Cons.IH [OF rest, of h2] obtain rest' h3 where
    rest': "results_loop cf prs h2 = Inr (rest', h3)"
    and eq: "map (\<lambda>r. r\<lparr>er_luck_tag := []\<rparr>) rest' = map (\<lambda>r. r\<lparr>er_luck_tag := []\<rparr>) rest"
    by blast
  show ?case
    using Cons.prems eq by (auto simp: pr c t t' rest rest')
qed

text \<open>
  Apart from the luck tag, the results do not depend on the state of the shared
  generator.
\<close>

lemma simulate_race_modulo_tag:
  assumes "simulate_race mk g rc = Inr (rs, g1)"
  shows "\<exists>rs' h1. simulate_race mk h rc = Inr (rs', h1)
     \<and> map (\<lambda>r. r\<lparr>er_luck_tag := []\<rparr>) rs' = map (\<lambda>r. r\<lparr>er_luck_tag := []\<rparr>) rs"
proof -
  from assms obtain raws where raws: "raw_results mk rc = Inr raws"
    by (auto simp: simulate_race_def split: sum.splits)
  with assms have "results_loop (cf_rank_of (neutral_scores (event_type rc) (ranked raws)))
      (enumerate 1 (ranked raws)) g = Inr (rs, g1)"
    by (simp add: simulate_race_def Let_def)
  from results_loop_modulo_tag [OF this, of h] show ?thesis
    by (simp add: simulate_race_def Let_def raws)
qed

section \<open>Track generation\<close>

subsection \<open>Tile classification\<close>

lemma tile_type_orientation_type:
  "tile_type_orientation a b = Inr (t, ori) \<Longrightarrow> t = Straight \<or> t = Curve"
  by (auto simp: tile_type_orientation_def split: if_splits option.splits)

lemma tile_at_type:
  "tile_at po i = Inr t \<Longrightarrow> tile_type t = Straight \<or> tile_type t = Curve"
  by (auto simp: tile_at_def Let_def split: prod.splits sum.splits
           dest: tile_type_orientation_type)

lemma tiles_loop_type:
  "tiles_loop po is = Inr ts \<Longrightarrow> t \<in> set ts
   \<Longrightarrow> tile_type t = Straight \<or> tile_type t = Curve"
proof (induction "is" arbitrary: ts)
  case Nil
  then show ?case by simp
next
  case (Cons i "is")
  from Cons.prems(1) obtain t0 ts0 where t0: "tile_at po i = Inr t0"
    and ts0: "tiles_loop po is = Inr ts0" and ts: "ts = t0 # ts0"
    by (auto split: sum.splits)
  from Cons.prems(2) ts have "t = t0 \<or> t \<in> set ts0" by simp
  then show ?case
    using tile_at_type [OF t0] Cons.IH [OF ts0] by blast
qed

lemma build_track_data_type:
  "build_track_data path n = Inr T \<Longrightarrow> t \<in> set (tiles T)
   \<Longrightarrow> tile_type t = Straight \<or> tile_type t = Curve"
  by (auto simp: build_track_data_def Let_def split: sum.splits dest: tiles_loop_type)

lemma generate_track_type:
  "generate_track n g = Inr T \<Longrightarrow> t \<in> set (tiles T)
   \<Longrightarrow> tile_type t = Straight \<or> tile_type t = Curve"
  by (auto simp: generate_track_def oval_fallback_def split: option.splits list.splits
           dest: build_track_data_type)

subsection \<open>Adjacency and cycles\<close>

lemma adjacent_sym: "adjacent a b = adjacent b a"
  by (auto simp: adjacent_def)

lemma adjacent_irrefl: "\<not> adjacent a a"
  by (simp add: adjacent_def)

lemma neighbours_adjacent: "c \<in> set (neighbours cur) \<Longrightarrow> adjacent cur c"
  by (auto simp: neighbours_def DIRECTIONS_def adjacent_def)

lemma compass_adjacent:
  "adjacent a b \<Longrightarrow> \<exists>l. COMPASS (fst a - fst b, snd a - snd b) = Some l"
proof -
  assume "adjacent a b"
  then have "(fst a - fst b, snd a - snd b) \<in> {(1, 0), (- 1, 0), (0, 1), (0, - 1)}"
    by (auto simp: adjacent_def abs_if split: if_splits)
  then show ?thesis
    by (auto simp: COMPASS_def)
qed

lemma tile_type_orientation_returns:
  assumes "\<exists>l. COMPASS a = Some l" and "\<exists>l. COMPASS b = Some l"
  shows "\<exists>r. tile_type_orientation a b = Inr r"
  using assms by (auto simp: tile_type_orientation_def split: option.splits)

lemma cycle_next:
  assumes "simple_cycle cs" and "i < length cs"
  shows "adjacent (cs ! i) (cs ! ((i + 1) mod length cs))"
proof (cases "Suc i < length cs")
  case True
  then show ?thesis
    using assms successively_nth [of adjacent cs i] by (simp add: simple_cycle_def)
next
  case False
  with assms(2) have len: "length cs = Suc i" by simp
  have "cs \<noteq> []" using assms(2) by (cases cs) simp_all
  then have "last cs = cs ! i" "hd cs = cs ! 0"
    by (simp_all add: last_conv_nth hd_conv_nth len)
  then show ?thesis
    using assms by (simp add: simple_cycle_def len)
qed

lemma cycle_prev:
  assumes "simple_cycle cs" and "i < length cs"
  shows "adjacent (cs ! nat ((int i - 1) mod int (length cs))) (cs ! i)"
proof (cases i)
  case 0
  have ne: "cs \<noteq> []" using assms(2) by (cases cs) simp_all
  then have "0 < int (length cs)" by simp
  then have "(- 1) mod int (length cs) = int (length cs) - 1"
    by (rule zmod_minus1)
  then have "nat ((int i - 1) mod int (length cs)) = length cs - 1"
    using 0 by simp
  with ne show ?thesis
    using assms 0 by (simp add: simple_cycle_def hd_conv_nth last_conv_nth)
next
  case (Suc j)
  then have "nat ((int i - 1) mod int (length cs)) = j"
    using assms(2) by simp
  then show ?thesis
    using assms Suc successively_nth [of adjacent cs j] by (simp add: simple_cycle_def)
qed

lemma tile_at_returns:
  assumes "simple_cycle cs" and "i < length cs"
  shows "\<exists>t. tile_at cs i = Inr t"
proof -
  let ?p = "cs ! nat ((int i - 1) mod int (length cs))"
  let ?n = "cs ! ((i + 1) mod length cs)"
  have a: "\<exists>l. COMPASS (fst (cs ! i) - fst ?p, snd (cs ! i) - snd ?p) = Some l"
    using cycle_prev [OF assms] by (intro compass_adjacent) (simp add: adjacent_sym)
  have b: "\<exists>l. COMPASS (fst ?n - fst (cs ! i), snd ?n - snd (cs ! i)) = Some l"
    using cycle_next [OF assms] by (intro compass_adjacent) (simp add: adjacent_sym)
  from tile_type_orientation_returns [OF a b] show ?thesis
    by (auto simp: tile_at_def Let_def split: prod.splits)
qed

lemma tiles_loop_returns:
  assumes "simple_cycle cs"
  shows "\<forall>i\<in>set is. i < length cs \<Longrightarrow> \<exists>ts. tiles_loop cs is = Inr ts"
proof (induction "is")
  case Nil
  show ?case by simp
next
  case (Cons i "is")
  then obtain ts where "tiles_loop cs is = Inr ts" by auto
  moreover obtain t where "tile_at cs i = Inr t"
    using tile_at_returns [OF assms, of i] Cons.prems by auto
  ultimately show ?case by simp
qed

lemma build_track_data_returns:
  assumes "simple_cycle cs"
  shows "\<exists>T. build_track_data (cs @ [c]) n = Inr T \<and> path_order T = cs"
proof -
  obtain ts where "tiles_loop cs [0..<length cs] = Inr ts"
    using tiles_loop_returns [OF assms, of "[0..<length cs]"] by auto
  then show ?thesis by (simp add: build_track_data_def)
qed

lemma build_track_data_path_order:
  "build_track_data path n = Inr T \<Longrightarrow> path_order T = butlast path"
  by (auto simp: build_track_data_def Let_def split: sum.splits)

subsection \<open>The random walk\<close>

lemma choice_member: "cs \<noteq> [] \<Longrightarrow> fst (choice cs g) \<in> set cs"
  by (simp add: choice_def)

lemma candidates_props:
  "c \<in> set (candidates n visited cur) \<Longrightarrow> c \<notin> visited \<and> adjacent cur c"
  by (auto simp: candidates_def dest: neighbours_adjacent)

lemma walk_inv_step:
  assumes "walk_inv path visited current" and "c \<notin> visited" and "adjacent current c"
  shows "walk_inv (path @ [c]) (insert c visited) c"
  using assms by (auto simp: walk_inv_def successively_append_iff)

lemma walk_loop_cycle:
  "walk_inv path visited current \<Longrightarrow>
   walk_loop k n path visited current g = (Some p, g') \<Longrightarrow>
   \<exists>cs. p = cs @ [start] \<and> simple_cycle cs \<and> min_steps n \<le> int (length cs)"
proof (induction k arbitrary: path visited current g)
  case 0
  then show ?case by simp
next
  case (Suc k)
  show ?case
  proof (cases "int (length path) \<ge> min_steps n \<and> start \<in> set (neighbours current)")
    case True
    with Suc.prems(2) have p: "p = path @ [start]" by simp
    have "adjacent (last path) (hd path)"
      using True Suc.prems(1) neighbours_adjacent [of start current]
      by (simp add: walk_inv_def)
    then have "simple_cycle path"
      using Suc.prems(1) by (simp add: walk_inv_def simple_cycle_def)
    with p True show ?thesis by blast
  next
    case False
    let ?cs = "candidates n visited current"
    from False Suc.prems(2) have ne: "?cs \<noteq> []"
      by (auto simp: Let_def split: if_splits)
    obtain nxt g1 where ch: "choice ?cs g = (nxt, g1)" by (cases "choice ?cs g")
    have "nxt \<in> set ?cs" using choice_member [OF ne, of g] ch by simp
    then have "nxt \<notin> visited" "adjacent current nxt"
      using candidates_props by blast+
    with Suc.prems(1) have inv: "walk_inv (path @ [nxt]) (insert nxt visited) nxt"
      by (rule walk_inv_step)
    have "walk_loop k n (path @ [nxt]) (insert nxt visited) nxt g1 = (Some p, g')"
      using Suc.prems(2) False ne ch by (simp add: Let_def)
    from Suc.IH [OF inv this] show ?thesis .
  qed
qed

lemma walk_inv_start: "walk_inv [start] {start} start"
  by (simp add: walk_inv_def)

lemma try_walk_cycle:
  "try_walk n g = (Some p, g') \<Longrightarrow>
   \<exists>cs. p = cs @ [start] \<and> simple_cycle cs \<and> min_steps n \<le> int (length cs)"
  unfolding try_walk_def using walk_inv_start by (rule walk_loop_cycle)

lemma retry_loop_cycle:
  "retry_loop k n g = Some p \<Longrightarrow>
   \<exists>cs. p = cs @ [start] \<and> simple_cycle cs \<and> min_steps n \<le> int (length cs)"
proof (induction k arbitrary: g)
  case 0
  then show ?case by simp
next
  case (Suc k)
  obtain r g1 where tw: "try_walk n g = (r, g1)" by (cases "try_walk n g")
  show ?case
  proof (cases r)
    case None
    with Suc.prems tw have "retry_loop k n g1 = Some p" by simp
    then show ?thesis by (rule Suc.IH)
  next
    case (Some q)
    with Suc.prems tw have "q = p" by simp
    with tw Some show ?thesis using try_walk_cycle by blast
  qed
qed

text \<open>A walk cannot close before it has \<open>min_steps\<close> cells.\<close>

lemma walk_loop_short:
  "int (length path) + int k < min_steps n \<Longrightarrow>
   fst (walk_loop k n path visited current g) = None"
proof (induction k arbitrary: path visited current g)
  case 0
  show ?case by simp
next
  case (Suc k)
  have "\<not> int (length path) \<ge> min_steps n" using Suc.prems by simp
  moreover have "fst (walk_loop k n (path @ [c]) (insert c visited) c g1) = None" for c g1
    using Suc.prems by (intro Suc.IH) simp
  ultimately show ?case
    by (simp add: Let_def split: prod.splits)
qed

lemma try_walk_small: "n * n + 1 < min_steps n \<Longrightarrow> fst (try_walk n g) = None"
  unfolding try_walk_def by (rule walk_loop_short) simp

lemma retry_loop_small: "n * n + 1 < min_steps n \<Longrightarrow> retry_loop k n g = None"
proof (induction k arbitrary: g)
  case 0
  show ?case by simp
next
  case (Suc k)
  obtain r g1 where tw: "try_walk n g = (r, g1)" by (cases "try_walk n g")
  with try_walk_small [OF Suc.prems, of g] have "r = None" by simp
  with tw Suc show ?case by simp
qed

lemma walk_loop_numeral:
  "walk_loop (numeral k) n path visited current g =
     (if int (length path) \<ge> min_steps n \<and> start \<in> set (neighbours current)
      then (Some (path @ [start]), g)
      else
        (let cs = candidates n visited current in
         if cs = [] then (None, g)
         else
           (let (nxt, g') = choice cs g
            in walk_loop (pred_numeral k) n (path @ [nxt]) (insert nxt visited) nxt g')))"
  by (simp add: numeral_eq_Suc)

lemma retry_loop_numeral:
  "retry_loop (numeral k) n g =
     (case try_walk n g of
        (Some path, g') \<Rightarrow> Some path
      | (None, g') \<Rightarrow> retry_loop (pred_numeral k) n g')"
  by (simp add: numeral_eq_Suc)

text \<open>
  A walk that closes: on the grid of size 12, when every draw selects the first
  candidate, the walk runs along the first row and back along the second.
\<close>

lemma try_walk_12:
  "fst (try_walk 12 (sconst 0)) =
     Some [(0, 0), (1, 0), (2, 0), (3, 0), (4, 0), (5, 0), (6, 0), (7, 0), (8, 0), (9, 0),
           (10, 0), (11, 0), (11, 1), (10, 1), (9, 1), (8, 1), (7, 1), (6, 1), (5, 1),
           (4, 1), (3, 1), (2, 1), (1, 1), (0, 1), (0, 0)]"
  by (simp add: try_walk_def walk_loop_numeral min_steps_def TRACK_MIN_STEPS_def
      neighbours_def DIRECTIONS_def start_def candidates_def choice_def Let_def)

subsection \<open>The oval\<close>

lemma hd_upto: "a \<le> b \<Longrightarrow> hd [a..b] = a"
  by (simp add: upto_rec1)

lemma last_upto: "a \<le> b \<Longrightarrow> last [a..b] = b"
  by (simp add: upto_rec2)

lemma successively_upto:
  "(\<And>i. a \<le> i \<Longrightarrow> i < b \<Longrightarrow> P i (i + 1)) \<Longrightarrow> successively P [a..b]"
proof (induction a b rule: upto.induct)
  case (1 i j)
  show ?case
  proof (cases "i \<le> j")
    case False
    then show ?thesis by simp
  next
    case True
    have rest: "successively P [i + 1..j]"
      using True "1.prems" by (intro "1.IH") auto
    show ?thesis
    proof (cases "i + 1 \<le> j")
      case False
      then show ?thesis using True by (simp add: upto_rec1)
    next
      case le: True
      have "P i (i + 1)" using le by (intro "1.prems") auto
      then show ?thesis
        using True le rest by (simp add: upto_rec1 [of i j] successively_Cons hd_upto)
    qed
  qed
qed

lemma oval_segments:
  assumes "4 \<le> n"
  shows "distinct (oval_path n)"
    and "successively adjacent (oval_path n)"
    and "int (length (oval_path n)) = 4 * (n - 3)"
    and "hd (oval_path n) = (1, 1)"
    and "last (oval_path n) = (1, 2)"
proof -
  define h where "h = n - 2"
  have h: "2 \<le> h" using assms by (simp add: h_def)
  define A where "A = map (\<lambda>x. (x, 1::int)) [1..h]"
  define B where "B = map (\<lambda>y. (h, y)) [2..h]"
  define C where "C = map (\<lambda>x. (x, h)) (rev [1..h - 1])"
  define D where "D = map (\<lambda>y. (1::int, y)) (rev [2..h - 1])"
  have ov: "oval_path n = A @ B @ C @ D"
    by (simp add: oval_path_def py_range_def py_range_down_def Let_def h_def
                  A_def B_def C_def D_def)
  have sA: "successively adjacent A"
    unfolding A_def successively_map by (rule successively_upto) (simp add: adjacent_def)
  have sB: "successively adjacent B"
    unfolding B_def successively_map by (rule successively_upto) (simp add: adjacent_def)
  have sC: "successively adjacent C"
    unfolding C_def successively_map successively_rev
    by (rule successively_upto) (simp add: adjacent_def)
  have sD: "successively adjacent D"
    unfolding D_def successively_map successively_rev
    by (rule successively_upto) (simp add: adjacent_def)
  have neA: "A \<noteq> []" and neB: "B \<noteq> []" and neC: "C \<noteq> []"
    using h by (simp_all add: A_def B_def C_def)
  have hdA: "hd A = (1, 1)" and lastA: "last A = (h, 1)"
    using h by (simp_all add: A_def hd_map last_map hd_upto last_upto)
  have hdB: "hd B = (h, 2)" and lastB: "last B = (h, h)"
    using h by (simp_all add: B_def hd_map last_map hd_upto last_upto)
  have hdC: "hd C = (h - 1, h)" and lastC: "last C = (1, h)"
    using h by (simp_all add: C_def hd_map last_map hd_rev last_rev hd_upto last_upto)
  have D_cases: "(D = [] \<and> h = 2) \<or> (D \<noteq> [] \<and> hd D = (1, h - 1) \<and> last D = (1, 2))"
    using h by (cases "h = 2")
      (simp_all add: D_def hd_map last_map hd_rev last_rev hd_upto last_upto)
  show "successively adjacent (oval_path n)"
    using sA sB sC sD neA neB neC hdA lastA hdB lastB hdC lastC D_cases
    by (auto simp: ov successively_append_iff adjacent_def)
  show "hd (oval_path n) = (1, 1)"
    using neA hdA by (simp add: ov)
  show "last (oval_path n) = (1, 2)"
    using neC lastC D_cases by (auto simp: ov)
  show "int (length (oval_path n)) = 4 * (n - 3)"
    using h by (simp add: ov A_def B_def C_def D_def h_def)
  have "distinct A" "distinct B" "distinct C" "distinct D"
    by (simp_all add: A_def B_def C_def D_def distinct_map inj_on_def)
  moreover have "set A \<inter> set B = {}" "set A \<inter> set C = {}" "set A \<inter> set D = {}"
    "set B \<inter> set C = {}" "set B \<inter> set D = {}" "set C \<inter> set D = {}"
    using h by (auto simp: A_def B_def C_def D_def)
  ultimately show "distinct (oval_path n)"
    by (auto simp: ov)
qed

lemma oval_cycle: "4 \<le> n \<Longrightarrow> simple_cycle (oval_path n)"
  using oval_segments [of n]
  by (auto simp: simple_cycle_def adjacent_def)

lemma oval_fallback_returns:
  assumes "4 \<le> n"
  shows "\<exists>T. oval_fallback n = Inr T \<and> path_order T = oval_path n"
proof -
  have "oval_path n \<noteq> []"
    using oval_cycle [OF assms] by (simp add: simple_cycle_def)
  then obtain p0 ps where ps: "oval_path n = p0 # ps" by (cases "oval_path n") auto
  have "simple_cycle (p0 # ps)"
    using oval_cycle [OF assms] by (simp add: ps)
  from build_track_data_returns [OF this, of p0 n] show ?thesis
    by (simp add: oval_fallback_def ps)
qed

lemma generate_track_4: "generate_track 4 g = oval_fallback 4"
proof -
  have "retry_loop TRACK_MAX_RETRIES 4 g = None"
    by (rule retry_loop_small) (simp add: min_steps_def TRACK_MIN_STEPS_def)
  then show ?thesis by (simp add: generate_track_def)
qed

lemma oval_fallback_4:
  "map_sum id (\<lambda>T. map (\<lambda>t. (tile_x t, tile_y t, tile_type t, tile_orientation t)) (tiles T))
     (oval_fallback 4)
   = Inr [(1, 1, Curve, NE), (2, 1, Curve, SE), (2, 2, Curve, SW), (1, 2, Curve, NW)]"
  by (simp add: oval_fallback_def oval_path_def py_range_def py_range_down_def upto_rec1
      build_track_data_def tile_at_def tile_type_orientation_def COMPASS_def CURVE_DIRS_def
      Let_def upt_rec doubleton_eq_iff)

subsection \<open>The generated track\<close>

text \<open>
  Claim C2, as the code has it. For every grid size \<open>n \<ge> 4\<close> and every generator,
  \<open>generate_track\<close> returns a track whose \<open>path_order\<close> is a simple closed cycle of
  pairwise distinct, consecutively grid-adjacent cells. A track that comes from the random
  walk has at least \<open>max(24, 2n)\<close> cells; the oval of the fallback has \<open>4(n - 3)\<close> cells,
  so from \<open>n = 9\<close> on every track has at least \<open>max(24, 2n)\<close> cells.
\<close>

theorem generate_track_cycle:
  assumes "4 \<le> n"
  shows "\<exists>T. generate_track n g = Inr T
       \<and> simple_cycle (path_order T)
       \<and> (max 24 (2 * n) \<le> int (length (path_order T))
          \<or> (path_order T = oval_path n \<and> int (length (path_order T)) = 4 * (n - 3)))
       \<and> (9 \<le> n \<longrightarrow> max 24 (2 * n) \<le> int (length (path_order T)))"
proof (cases "retry_loop TRACK_MAX_RETRIES n g")
  case None
  from oval_fallback_returns [OF assms] obtain T where
    T: "oval_fallback n = Inr T" and po: "path_order T = oval_path n" by blast
  have len: "int (length (path_order T)) = 4 * (n - 3)"
    using oval_segments(3) [OF assms] by (simp add: po)
  have "generate_track n g = Inr T"
    by (simp add: generate_track_def None T)
  moreover have "simple_cycle (path_order T)"
    using oval_cycle [OF assms] by (simp add: po)
  moreover have "9 \<le> n \<longrightarrow> max 24 (2 * n) \<le> int (length (path_order T))"
    by (simp add: len)
  ultimately show ?thesis using po len by blast
next
  case (Some p)
  from retry_loop_cycle [OF Some] obtain cs where p: "p = cs @ [start]"
    and cyc: "simple_cycle cs" and len: "min_steps n \<le> int (length cs)" by blast
  from build_track_data_returns [OF cyc, of start n] obtain T where
    T: "build_track_data (cs @ [start]) n = Inr T" and po: "path_order T = cs" by blast
  have "generate_track n g = Inr T"
    by (simp add: generate_track_def Some p T)
  moreover have "max 24 (2 * n) \<le> int (length (path_order T))"
    using len by (simp add: po min_steps_def TRACK_MIN_STEPS_def mult.commute)
  ultimately show ?thesis using cyc po by blast
qed

text \<open>
  The claim at the grid of size 12 with the generator whose draws are all 0: the walk
  closes at once and the track has exactly the minimum of 24 cells.
\<close>

theorem generate_track_cycle_witness:
  "(4::int) \<le> 12 \<and> (9::int) \<le> 12
   \<and> (\<exists>T. generate_track 12 (sconst 0) = Inr T
       \<and> simple_cycle (path_order T)
       \<and> length (path_order T) = 24)"
proof -
  from generate_track_cycle [of 12 "sconst 0"] obtain T where
    T: "generate_track 12 (sconst 0) = Inr T" and cyc: "simple_cycle (path_order T)"
    by auto
  have "generate_track 12 (sconst 0)
      = build_track_data (the (fst (try_walk 12 (sconst 0)))) 12"
    using try_walk_12
    by (cases "try_walk 12 (sconst 0)")
       (simp add: generate_track_def TRACK_MAX_RETRIES_def retry_loop_numeral)
  with T have "path_order T = butlast (the (fst (try_walk 12 (sconst 0))))"
    by (simp add: build_track_data_path_order)
  then have "length (path_order T) = 24"
    by (simp add: try_walk_12)
  with T cyc show ?thesis by auto
qed

text \<open>
  Claim C2 fails as stated. On the grid of size 4 a walk has at most 17 cells and can
  never reach the minimum of 24, so every attempt fails for every generator and the
  fallback returns its oval of four cells.
\<close>

theorem oval_shorter_than_minimum:
  "map_sum id path_order (generate_track 4 (sconst 0)) = Inr [(1, 1), (2, 1), (2, 2), (1, 2)]"
proof -
  have "retry_loop TRACK_MAX_RETRIES 4 (sconst 0) = None"
    by (rule retry_loop_small) (simp add: min_steps_def TRACK_MIN_STEPS_def)
  moreover have "oval_path 4 = [(1, 1), (2, 1), (2, 2), (1, 2)]"
    by (simp add: oval_path_def py_range_def py_range_down_def upto_rec1)
  moreover obtain T where "oval_fallback 4 = Inr T \<and> path_order T = oval_path 4"
    using oval_fallback_returns [of 4] by auto
  ultimately show ?thesis
    by (simp add: generate_track_def)
qed

text \<open>
  Claim C10. \<open>generate_track\<close> returns a track for every grid size \<open>n \<ge> 4\<close>, and every
  tile of a track that it returns, from the walk or from the fallback, has the type
  \<open>straight\<close> or \<open>curve\<close>, never \<open>chicane\<close>.
\<close>

theorem generate_track_tile_types:
  "(4 \<le> n \<longrightarrow> (\<exists>T. generate_track n g = Inr T))
   \<and> (\<forall>T. generate_track n g = Inr T \<longrightarrow>
         (\<forall>t\<in>set (tiles T). tile_type t = Straight \<or> tile_type t = Curve))"
proof -
  have "\<exists>T. generate_track n g = Inr T" if "4 \<le> n"
  proof (cases "retry_loop TRACK_MAX_RETRIES n g")
    case None
    then show ?thesis
      using oval_fallback_returns [OF that] by (auto simp: generate_track_def)
  next
    case (Some p)
    from retry_loop_cycle [OF Some] obtain cs where p: "p = cs @ [start]"
      and cyc: "simple_cycle cs" by blast
    from build_track_data_returns [OF cyc, of start n] show ?thesis
      by (auto simp: generate_track_def Some p)
  qed
  then show ?thesis
    using generate_track_type by blast
qed

text \<open>
  The claim at the grid of size 4, where the track is the oval of four curves.
\<close>

theorem generate_track_tile_types_witness:
  "(4::int) \<le> 4
   \<and> (\<exists>T. generate_track 4 (sconst 0) = Inr T \<and> length (tiles T) = 4
        \<and> (\<forall>t\<in>set (tiles T). tile_type t = Straight \<or> tile_type t = Curve))"
proof -
  from generate_track_tile_types [of 4 "sconst 0"] obtain T where
    T: "generate_track 4 (sconst 0) = Inr T"
    and ty: "\<forall>t\<in>set (tiles T). tile_type t = Straight \<or> tile_type t = Curve"
    by auto
  have "length (tiles T) = 4"
    using oval_fallback_4 T by (auto simp: generate_track_4 dest: arg_cong [where f = length])
  with T ty show ?thesis by auto
qed

section \<open>Speed profile\<close>

lemma profile_inv_update:
  assumes "profile_inv raw sp" and "i < length sp" and "0 < v" and "v \<le> sp ! i"
  shows "profile_inv raw (sp[i := v])"
proof -
  have la: "list_all2 (\<le>) sp raw"
    using assms(1) by (simp add: profile_inv_def)
  have len: "length sp = length raw"
    using la by (rule list_all2_lengthD)
  have "sp ! i \<le> raw ! i"
    using la assms(2) by (rule list_all2_nthD)
  with assms(4) have "v \<le> raw ! i" by simp
  then have "list_all2 (\<le>) (sp[i := v]) (raw[i := raw ! i])"
    using assms(1) by (intro list_all2_update_cong) (simp_all add: profile_inv_def)
  moreover have "\<forall>x\<in>set (sp[i := v]). 0 < x"
    using assms(1,3) set_update_subset_insert [of sp i v]
    by (auto simp: profile_inv_def)
  ultimately show ?thesis by (simp add: profile_inv_def)
qed

lemma limit_pos: "0 < c \<Longrightarrow> 0 < sqrt (x\<^sup>2 + c)"
  by (simp add: add_nonneg_pos)

lemma brake_pos: "0 < 2.0 * BRAKE_FPS2 * TILE_FEET"
  by (simp add: BRAKE_FPS2_def TILE_FEET_def FT_PER_SEC_PER_G_def)

lemma accel_pos: "0 < 2.0 * ACCEL_FPS2 * TILE_FEET"
  by (simp add: ACCEL_FPS2_def TILE_FEET_def FT_PER_SEC_PER_G_def)

lemma brake_step_inv:
  assumes "profile_inv raw (fst sc)" and "i < length (fst sc)"
  shows "profile_inv raw (fst (brake_step n i sc))"
    and "length (fst (brake_step n i sc)) = length (fst sc)"
proof -
  let ?limit = "sqrt ((fst sc ! ((i + 1) mod n))\<^sup>2 + 2.0 * BRAKE_FPS2 * TILE_FEET)"
  have "0 < ?limit" using brake_pos by (rule limit_pos)
  then have "profile_inv raw ((fst sc)[i := ?limit])" if "fst sc ! i > ?limit + 0.01"
    using assms that by (intro profile_inv_update) simp_all
  then show "profile_inv raw (fst (brake_step n i sc))"
    using assms(1) by (simp add: brake_step_def Let_def)
  show "length (fst (brake_step n i sc)) = length (fst sc)"
    by (simp add: brake_step_def Let_def)
qed

lemma accel_step_inv:
  assumes "profile_inv raw (fst sc)" and "i < length (fst sc)"
  shows "profile_inv raw (fst (accel_step n i sc))"
    and "length (fst (accel_step n i sc)) = length (fst sc)"
proof -
  let ?limit = "sqrt ((fst sc ! nat ((int i - 1) mod int n))\<^sup>2 + 2.0 * ACCEL_FPS2 * TILE_FEET)"
  have "0 < ?limit" using accel_pos by (rule limit_pos)
  then have "profile_inv raw ((fst sc)[i := ?limit])" if "fst sc ! i > ?limit + 0.01"
    using assms that by (intro profile_inv_update) simp_all
  then show "profile_inv raw (fst (accel_step n i sc))"
    using assms(1) by (simp add: accel_step_def Let_def)
  show "length (fst (accel_step n i sc)) = length (fst sc)"
    by (simp add: accel_step_def Let_def)
qed

lemma fold_brake_inv:
  "profile_inv raw (fst sc) \<Longrightarrow> \<forall>i\<in>set is. i < length (fst sc) \<Longrightarrow>
   profile_inv raw (fst (fold (brake_step n) is sc))
   \<and> length (fst (fold (brake_step n) is sc)) = length (fst sc)"
proof (induction "is" arbitrary: sc)
  case Nil
  then show ?case by simp
next
  case (Cons i "is")
  have "profile_inv raw (fst (brake_step n i sc))"
    and len: "length (fst (brake_step n i sc)) = length (fst sc)"
    using Cons.prems by (simp_all add: brake_step_inv)
  with Cons.IH [of "brake_step n i sc"] Cons.prems(2) show ?case by simp
qed

lemma fold_accel_inv:
  "profile_inv raw (fst sc) \<Longrightarrow> \<forall>i\<in>set is. i < length (fst sc) \<Longrightarrow>
   profile_inv raw (fst (fold (accel_step n) is sc))
   \<and> length (fst (fold (accel_step n) is sc)) = length (fst sc)"
proof (induction "is" arbitrary: sc)
  case Nil
  then show ?case by simp
next
  case (Cons i "is")
  have "profile_inv raw (fst (accel_step n i sc))"
    and len: "length (fst (accel_step n i sc)) = length (fst sc)"
    using Cons.prems by (simp_all add: accel_step_inv)
  with Cons.IH [of "accel_step n i sc"] Cons.prems(2) show ?case by simp
qed

lemma sweep_inv:
  assumes "profile_inv raw sp" and "n = length sp"
  shows "profile_inv raw (fst (sweep n sp)) \<and> length (fst (sweep n sp)) = length sp"
proof -
  let ?b = "fold (brake_step n) [0..<n] (sp, False)"
  have b: "profile_inv raw (fst ?b) \<and> length (fst ?b) = length sp"
    using fold_brake_inv [of raw "(sp, False)" "[0..<n]" n] assms by simp
  then have "\<forall>i\<in>set [0..<n]. i < length (fst ?b)" using assms(2) by simp
  with b fold_accel_inv [of raw ?b "[0..<n]" n] show ?thesis
    by (simp add: sweep_def)
qed

lemma passes_inv:
  "profile_inv raw sp \<Longrightarrow> n = length sp \<Longrightarrow>
   profile_inv raw (passes k n sp) \<and> length (passes k n sp) = length sp"
proof (induction k arbitrary: sp)
  case 0
  then show ?case by simp
next
  case (Suc k)
  obtain sp' changed where sw: "sweep n sp = (sp', changed)" by (cases "sweep n sp")
  with sweep_inv [OF Suc.prems] have inv: "profile_inv raw sp'" and len: "length sp' = length sp"
    by simp_all
  show ?case
  proof (cases changed)
    case False
    then show ?thesis using sw inv len by simp
  next
    case True
    have "n = length sp'" using Suc.prems(2) len by simp
    from Suc.IH [OF inv this] show ?thesis using sw True len by simp
  qed
qed

lemma speed_constants_order:
  "0 < CHICANE_SPEED_FPS" "CHICANE_SPEED_FPS < CORNER_SPEED_FPS"
  "CORNER_SPEED_FPS < TOP_SPEED_FPS"
  by (simp_all add: CHICANE_SPEED_FPS_def CORNER_SPEED_FPS_def TOP_SPEED_FPS_def MPH_TO_FPS_def)

lemma raw_target_pos: "0 < raw_target m pos"
  using speed_constants_order by (auto simp: raw_target_def Let_def)

lemma raw_speeds_inv: "profile_inv (raw_speeds track) (raw_speeds track)"
  by (auto simp: profile_inv_def raw_speeds_def list_all2_same raw_target_pos)

lemma build_speed_profile_inv:
  "profile_inv (raw_speeds track) (build_speed_profile track)"
  "length (build_speed_profile track) = length (path_order track)"
  using passes_inv [OF raw_speeds_inv, of "length (path_order track)" track 10]
  by (simp_all add: build_speed_profile_def raw_speeds_def)

text \<open>
  Claim C8. The output of \<open>build_speed_profile\<close> has one entry per position of
  \<open>path_order\<close>, and every entry is at most the raw target speed of the tile at that
  position: the chicane speed for a chicane, the corner speed for a curve, and the top
  speed for a straight or for a position that has no tile. The three constants are
  ordered chicane < corner < top.
\<close>

theorem build_speed_profile_bounded:
  "length (build_speed_profile track) = length (path_order track)
   \<and> (\<forall>i<length (path_order track).
        build_speed_profile track ! i
          \<le> (case tile_type_by_pos (tiles track) (path_order track ! i) of
                Some Chicane \<Rightarrow> CHICANE_SPEED_FPS
              | Some Curve \<Rightarrow> CORNER_SPEED_FPS
              | _ \<Rightarrow> TOP_SPEED_FPS))
   \<and> CHICANE_SPEED_FPS < CORNER_SPEED_FPS \<and> CORNER_SPEED_FPS < TOP_SPEED_FPS"
proof -
  have "build_speed_profile track ! i
          \<le> (case tile_type_by_pos (tiles track) (path_order track ! i) of
                Some Chicane \<Rightarrow> CHICANE_SPEED_FPS
              | Some Curve \<Rightarrow> CORNER_SPEED_FPS
              | _ \<Rightarrow> TOP_SPEED_FPS)"
    if i: "i < length (path_order track)" for i
  proof -
    have "build_speed_profile track ! i \<le> raw_speeds track ! i"
      using build_speed_profile_inv [of track] i
      by (simp add: profile_inv_def list_all2_nthD)
    also have "raw_speeds track ! i
        = (case tile_type_by_pos (tiles track) (path_order track ! i) of
                Some Chicane \<Rightarrow> CHICANE_SPEED_FPS
              | Some Curve \<Rightarrow> CORNER_SPEED_FPS
              | _ \<Rightarrow> TOP_SPEED_FPS)"
      using i by (simp add: raw_speeds_def raw_target_def Let_def
                       split: option.splits tile_type.splits)
    finally show ?thesis .
  qed
  then show ?thesis
    using build_speed_profile_inv(2) [of track] speed_constants_order by blast
qed

text \<open>
  The claim at a track whose first tile is a chicane.
\<close>

theorem build_speed_profile_bounded_witness:
  "(0::nat) < length (path_order chicane_track)
   \<and> build_speed_profile chicane_track ! 0 \<le> CHICANE_SPEED_FPS"
  using build_speed_profile_bounded [of chicane_track]
  by (auto simp: chicane_track_def tile_type_by_pos_def)

section \<open>Tick stream\<close>

subsection \<open>One car in one tick\<close>

lemma dt_pos: "0 < dt"
  by (simp add: dt_def RACE_TICK_INTERVAL_MS_def)

lemma new_velocity_nonneg: "0 \<le> v \<Longrightarrow> 0 \<le> tg \<Longrightarrow> 0 \<le> new_velocity v tg"
  using dt_pos
  by (auto simp: new_velocity_def ACCEL_FPS2_def FT_PER_SEC_PER_G_def min_def max_def)

text \<open>The three branches of the loop body.\<close>

lemma car_tick_done:
  assumes "car_finished st (er_player_id r) \<noteq> None"
  shows "car_tick env t r st =
     (st,
      \<lparr>car_id = er_player_id r, cs_username = er_username r,
       progress = py_round 4 (min 1 (car_pos st (er_player_id r) / total_distance env)),
       speed = py_round 0 (car_vel st (er_player_id r) / MPH_TO_FPS),
       incident = (if er_dnf r then Some ''dnf'' else None)\<rparr>,
      False)"
  using assms by (simp add: car_tick_def Let_def)

lemma car_tick_stop:
  assumes "car_finished st (er_player_id r) = None" and "at_dnf_stop env st r"
  shows "car_tick env t r st =
     (st\<lparr>car_vel := (car_vel st)(er_player_id r := 0),
         car_finished := (car_finished st)(er_player_id r := Some t),
         dnf_fired := (dnf_fired st)(er_player_id r := True)\<rparr>,
      \<lparr>car_id = er_player_id r, cs_username = er_username r,
       progress = py_round 4 (car_pos st (er_player_id r) / total_distance env),
       speed = 0,
       incident = Some (if \<not> dnf_fired st (er_player_id r) then ''dnf_start'' else ''dnf'')\<rparr>,
      False)"
  using assms by (simp add: car_tick_def Let_def)

lemma car_tick_move:
  assumes "car_finished st (er_player_id r) = None" and "\<not> at_dnf_stop env st r"
    and "0 < total_distance env"
  defines "pid \<equiv> er_player_id r"
  defines "v \<equiv> new_velocity (car_vel st pid) (target_speed env st pid)"
  defines "p \<equiv> car_pos st pid + v * dt"
  shows "car_tick env t r st =
     (st\<lparr>car_vel := (car_vel st)(pid := v),
         car_pos := (car_pos st)(pid := (if total_distance env \<le> p then total_distance env else p)),
         car_finished := (if total_distance env \<le> p then (car_finished st)(pid := Some t)
                          else car_finished st),
         leader_finished_tick :=
           (if total_distance env \<le> p \<and> leader_finished_tick st = None
            then Some t else leader_finished_tick st)\<rparr>,
      \<lparr>car_id = pid, cs_username = er_username r,
       progress = py_round 4 ((if total_distance env \<le> p then total_distance env else p)
                               / total_distance env),
       speed = py_round 0 (v / MPH_TO_FPS),
       incident = None\<rparr>,
      True)"
proof -
  have fin: "(1 \<le> p / total_distance env) = (total_distance env \<le> p)"
    using assms(3) by (simp add: le_divide_eq_1_pos)
  show ?thesis
  proof (cases "total_distance env \<le> p")
    case True
    then show ?thesis
      using assms(1,2,3) fin
      by (simp add: car_tick_def Let_def pid_def v_def p_def target_speed_def)
  next
    case False
    then have "min 1 (p / total_distance env) = p / total_distance env"
      using fin by (simp add: min_def)
    then show ?thesis
      using assms(1,2,3) fin False
      by (simp add: car_tick_def Let_def pid_def v_def p_def target_speed_def)
  qed
qed

lemma target_speed_nonneg:
  assumes "env_ok env"
  shows "0 \<le> target_speed env st pid"
proof -
  let ?i = "nat (py_int (py_fmod (car_pos st pid) (TILE_FEET * real (n_tiles env))
                                 / TILE_FEET) mod int (n_tiles env))"
  have "0 < int (n_tiles env)" using assms by (simp add: env_ok_def)
  then have "?i < n_tiles env"
    by (metis nat_less_iff pos_mod_bound pos_mod_sign)
  then have "profile env ! ?i \<in> set (profile env)"
    using assms by (simp add: env_ok_def)
  then have "0 < profile env ! ?i"
    using assms by (simp add: env_ok_def)
  moreover have "0 \<le> car_factor env pid"
    using assms by (simp add: env_ok_def)
  ultimately show ?thesis
    by (simp add: target_speed_def)
qed

lemma car_tick_props:
  assumes ok: "env_ok env" and inv: "state_inv env st"
    and ct: "car_tick env t r st = (st', snap, moving)"
  shows "state_inv env st'"
    and "\<forall>q. car_pos st q \<le> car_pos st' q"
    and "\<forall>q. car_finished st q \<noteq> None \<longrightarrow> car_finished st' q \<noteq> None"
    and "\<forall>q. q \<noteq> er_player_id r \<longrightarrow>
           car_pos st' q = car_pos st q \<and> car_finished st' q = car_finished st q"
    and "progress snap = py_round 4 (car_pos st' (er_player_id r) / total_distance env)"
    and "car_id snap = er_player_id r"
    and "incident snap \<noteq> None \<longrightarrow> car_finished st' (er_player_id r) \<noteq> None"
proof -
  let ?pid = "er_player_id r"
  let ?T = "total_distance env"
  have T: "0 < ?T" using ok by (simp add: env_ok_def)
  have pos: "0 \<le> car_pos st q" "car_pos st q \<le> ?T" for q
    using inv by (simp_all add: state_inv_def)
  have vel: "0 \<le> car_vel st q" for q
    using inv by (simp add: state_inv_def)
  have fin: "car_pos st q = ?T \<or> (\<exists>f. dnf_stop env q = Some f \<and> f * ?T \<le> car_pos st q)"
    if "car_finished st q \<noteq> None" for q
    using inv that by (simp add: state_inv_def)
  consider (finished) "car_finished st ?pid \<noteq> None"
    | (stop) "car_finished st ?pid = None" "at_dnf_stop env st r"
    | (move) "car_finished st ?pid = None" "\<not> at_dnf_stop env st r"
    by blast
  then have "state_inv env st'
    \<and> (\<forall>q. car_pos st q \<le> car_pos st' q)
    \<and> (\<forall>q. car_finished st q \<noteq> None \<longrightarrow> car_finished st' q \<noteq> None)
    \<and> (\<forall>q. q \<noteq> ?pid \<longrightarrow> car_pos st' q = car_pos st q \<and> car_finished st' q = car_finished st q)
    \<and> progress snap = py_round 4 (car_pos st' ?pid / ?T)
    \<and> car_id snap = ?pid
    \<and> (incident snap \<noteq> None \<longrightarrow> car_finished st' ?pid \<noteq> None)"
  proof cases
    case finished
    have "car_pos st ?pid / ?T \<le> 1" using pos [of ?pid] T by simp
    then have "min 1 (car_pos st ?pid / ?T) = car_pos st ?pid / ?T" by simp
    then show ?thesis
      using ct inv finished unfolding car_tick_done [OF finished] by auto
  next
    case stop
    from stop(2) obtain f where f: "dnf_stop env ?pid = Some f" "f * ?T \<le> car_pos st ?pid"
      by (auto simp: at_dnf_stop_def split: option.splits)
    have st': "st' = st\<lparr>car_vel := (car_vel st)(?pid := 0),
         car_finished := (car_finished st)(?pid := Some t),
         dnf_fired := (dnf_fired st)(?pid := True)\<rparr>"
      and snap: "progress snap = py_round 4 (car_pos st ?pid / ?T)" "car_id snap = ?pid"
      using ct unfolding car_tick_stop [OF stop] by auto
    have "state_inv env st'"
      using inv f unfolding st' state_inv_def by auto
    then show ?thesis
      using snap by (simp add: st')
  next
    case move
    define v where "v = new_velocity (car_vel st ?pid) (target_speed env st ?pid)"
    define p where "p = car_pos st ?pid + v * dt"
    define p' where "p' = (if ?T \<le> p then ?T else p)"
    have v: "0 \<le> v"
      unfolding v_def using vel target_speed_nonneg [OF ok] by (rule new_velocity_nonneg)
    then have "0 \<le> v * dt" using dt_pos by simp
    then have p: "car_pos st ?pid \<le> p" by (simp add: p_def)
    have p'1: "car_pos st ?pid \<le> p'" using p pos [of ?pid] by (simp add: p'_def)
    have p'2: "p' \<le> ?T" by (simp add: p'_def)
    have p'3: "?T \<le> p \<longrightarrow> p' = ?T" by (simp add: p'_def)
    have st': "st' = st\<lparr>car_vel := (car_vel st)(?pid := v),
         car_pos := (car_pos st)(?pid := p'),
         car_finished := (if ?T \<le> p then (car_finished st)(?pid := Some t)
                          else car_finished st),
         leader_finished_tick :=
           (if ?T \<le> p \<and> leader_finished_tick st = None
            then Some t else leader_finished_tick st)\<rparr>"
      and snap: "progress snap = py_round 4 (p' / ?T)" "car_id snap = ?pid"
        "incident snap = None"
      using ct unfolding car_tick_move [OF move T] v_def p_def p'_def by auto
    have "state_inv env st'"
      unfolding state_inv_def
    proof (intro conjI allI impI)
      fix q show "0 \<le> car_vel st' q" using vel [of q] v by (simp add: st')
      show "0 \<le> car_pos st' q" using pos(1) [of q] pos(1) [of ?pid] p'1 by (simp add: st')
      show "car_pos st' q \<le> ?T" using pos(2) [of q] p'2 by (simp add: st')
    next
      fix q assume a: "car_finished st' q \<noteq> None"
      show "car_pos st' q = ?T \<or> (\<exists>f. dnf_stop env q = Some f \<and> f * ?T \<le> car_pos st' q)"
      proof (cases "q = ?pid")
        case True
        with a move(1) have "?T \<le> p" by (auto simp: st' split: if_splits)
        with p'3 True show ?thesis by (simp add: st')
      next
        case False
        with a have "car_finished st q \<noteq> None" by (auto simp: st' split: if_splits)
        from fin [OF this] False show ?thesis by (simp add: st')
      qed
    qed
    moreover have "\<forall>q. car_pos st q \<le> car_pos st' q"
      using p'1 by (simp add: st')
    moreover have "\<forall>q. car_finished st q \<noteq> None \<longrightarrow> car_finished st' q \<noteq> None"
      by (simp add: st')
    ultimately show ?thesis
      using snap by (simp add: st')
  qed
  then show "state_inv env st'"
    and "\<forall>q. car_pos st q \<le> car_pos st' q"
    and "\<forall>q. car_finished st q \<noteq> None \<longrightarrow> car_finished st' q \<noteq> None"
    and "\<forall>q. q \<noteq> er_player_id r \<longrightarrow>
           car_pos st' q = car_pos st q \<and> car_finished st' q = car_finished st q"
    and "progress snap = py_round 4 (car_pos st' (er_player_id r) / total_distance env)"
    and "car_id snap = er_player_id r"
    and "incident snap \<noteq> None \<longrightarrow> car_finished st' (er_player_id r) \<noteq> None"
    by blast+
qed

lemma rounded_progress_mono:
  assumes "env_ok env" and "car_pos st q \<le> car_pos st' q"
  shows "rounded_progress env st q \<le> rounded_progress env st' q"
proof -
  have "0 < total_distance env" using assms(1) by (simp add: env_ok_def)
  then have "car_pos st q / total_distance env \<le> car_pos st' q / total_distance env"
    using assms(2) by (simp add: divide_right_mono)
  then show ?thesis
    unfolding rounded_progress_def by (rule py_round_mono)
qed

lemma rounded_progress_unit:
  assumes "env_ok env" and "state_inv env st"
  shows "0 \<le> rounded_progress env st q \<and> rounded_progress env st q \<le> 1"
proof -
  have T: "0 < total_distance env" using assms(1) by (simp add: env_ok_def)
  have "0 \<le> car_pos st q" "car_pos st q \<le> total_distance env"
    using assms(2) by (simp_all add: state_inv_def)
  then have "0 \<le> car_pos st q / total_distance env" "car_pos st q / total_distance env \<le> 1"
    using T by simp_all
  then show ?thesis
    unfolding rounded_progress_def by (rule py_round_unit)
qed

lemma rounded_progress_finished:
  assumes "env_ok env" and "state_inv env st" and "car_finished st q \<noteq> None"
  shows "dnf_stop env q = None \<longrightarrow> rounded_progress env st q = 1"
    and "dnf_stop env q = Some f \<longrightarrow> py_round 4 f \<le> rounded_progress env st q"
proof -
  have T: "0 < total_distance env" using assms(1) by (simp add: env_ok_def)
  have fin: "car_pos st q = total_distance env
      \<or> (\<exists>f. dnf_stop env q = Some f \<and> f * total_distance env \<le> car_pos st q)"
    using assms(2,3) by (simp add: state_inv_def)
  show "dnf_stop env q = None \<longrightarrow> rounded_progress env st q = 1"
    using fin T by (auto simp: rounded_progress_def py_round_one)
  show "dnf_stop env q = Some f \<longrightarrow> py_round 4 f \<le> rounded_progress env st q"
  proof
    assume f: "dnf_stop env q = Some f"
    then have "f \<le> 1" using assms(1) by (auto simp: env_ok_def)
    have "f \<le> car_pos st q / total_distance env"
    proof (cases "car_pos st q = total_distance env")
      case True
      then show ?thesis using T \<open>f \<le> 1\<close> by simp
    next
      case False
      with fin f have "f * total_distance env \<le> car_pos st q" by auto
      then show ?thesis using T by (simp add: pos_le_divide_eq)
    qed
    then show "py_round 4 f \<le> rounded_progress env st q"
      unfolding rounded_progress_def by (rule py_round_mono)
  qed
qed

lemma car_tick_snap:
  assumes ok: "env_ok env" and inv: "state_inv env st"
    and ct: "car_tick env t r st = (st', snap, moving)"
  shows "snap_ok env snap r"
    and "progress snap = rounded_progress env st' (er_player_id r)"
proof -
  note props = car_tick_props [OF ok inv ct]
  show pr: "progress snap = rounded_progress env st' (er_player_id r)"
    using props(5) by (simp add: rounded_progress_def)
  show "snap_ok env snap r"
    unfolding snap_ok_def pr
    using props(6,7) rounded_progress_unit [OF ok props(1)]
      rounded_progress_finished(2) [OF ok props(1)]
    by auto
qed

subsection \<open>One tick and the whole loop\<close>

lemma cars_loop_props:
  assumes ok: "env_ok env"
  shows "state_inv env st \<Longrightarrow> cars_loop env t rs st = (st', snaps, ad) \<Longrightarrow>
     state_inv env st'
   \<and> (\<forall>q. car_pos st q \<le> car_pos st' q)
   \<and> (\<forall>q. q \<notin> er_player_id ` set rs \<longrightarrow>
          car_pos st' q = car_pos st q \<and> car_finished st' q = car_finished st q)
   \<and> list_all2 (snap_ok env) snaps rs
   \<and> (\<forall>j<length rs.
          rounded_progress env st (er_player_id (rs ! j)) \<le> progress (snaps ! j)
        \<and> progress (snaps ! j) \<le> rounded_progress env st' (er_player_id (rs ! j)))
   \<and> (distinct (map er_player_id rs) \<longrightarrow>
        (\<forall>j<length rs. progress (snaps ! j) = rounded_progress env st' (er_player_id (rs ! j))))"
proof (induction rs arbitrary: st st' snaps ad)
  case Nil
  then show ?case by simp
next
  case (Cons r rs)
  obtain st1 snap mv where ct: "car_tick env t r st = (st1, snap, mv)"
    by (cases "car_tick env t r st") auto
  obtain st2 snaps' ad' where cl: "cars_loop env t rs st1 = (st2, snaps', ad')"
    by (cases "cars_loop env t rs st1") auto
  from Cons.prems(2) ct cl have eq: "st' = st2" "snaps = snap # snaps'"
    by simp_all
  note p1 = car_tick_props [OF ok Cons.prems(1) ct]
  note s1 = car_tick_snap [OF ok Cons.prems(1) ct]
  from Cons.IH [OF p1(1) cl] have
    inv2: "state_inv env st2"
    and mono2: "\<forall>q. car_pos st1 q \<le> car_pos st2 q"
    and other2: "\<forall>q. q \<notin> er_player_id ` set rs \<longrightarrow>
          car_pos st2 q = car_pos st1 q \<and> car_finished st2 q = car_finished st1 q"
    and ok2: "list_all2 (snap_ok env) snaps' rs"
    and sand2: "\<forall>j<length rs.
          rounded_progress env st1 (er_player_id (rs ! j)) \<le> progress (snaps' ! j)
        \<and> progress (snaps' ! j) \<le> rounded_progress env st2 (er_player_id (rs ! j))"
    and dist2: "distinct (map er_player_id rs) \<longrightarrow>
        (\<forall>j<length rs. progress (snaps' ! j) = rounded_progress env st2 (er_player_id (rs ! j)))"
    by blast+
  have mono: "\<forall>q. car_pos st q \<le> car_pos st2 q"
    using p1(2) mono2 order_trans by blast
  have other: "\<forall>q. q \<notin> er_player_id ` set (r # rs) \<longrightarrow>
          car_pos st2 q = car_pos st q \<and> car_finished st2 q = car_finished st q"
    using p1(4) other2 by simp
  have sand: "rounded_progress env st (er_player_id ((r # rs) ! j)) \<le> progress ((snap # snaps') ! j)
        \<and> progress ((snap # snaps') ! j) \<le> rounded_progress env st2 (er_player_id ((r # rs) ! j))"
    if "j < length (r # rs)" for j
  proof (cases j)
    case 0
    have "rounded_progress env st (er_player_id r) \<le> rounded_progress env st1 (er_player_id r)"
      using p1(2) by (intro rounded_progress_mono [OF ok]) simp
    moreover have "rounded_progress env st1 (er_player_id r)
        \<le> rounded_progress env st2 (er_player_id r)"
      using mono2 by (intro rounded_progress_mono [OF ok]) simp
    ultimately show ?thesis using 0 s1(2) by simp
  next
    case (Suc k)
    then have k: "k < length rs" using that by simp
    have "rounded_progress env st (er_player_id (rs ! k))
        \<le> rounded_progress env st1 (er_player_id (rs ! k))"
      using p1(2) by (intro rounded_progress_mono [OF ok]) simp
    with sand2 k show ?thesis using Suc by fastforce
  qed
  have dist: "progress ((snap # snaps') ! j) = rounded_progress env st2 (er_player_id ((r # rs) ! j))"
    if d: "distinct (map er_player_id (r # rs))" and "j < length (r # rs)" for j
  proof (cases j)
    case 0
    have "er_player_id r \<notin> er_player_id ` set rs" using d by simp
    with other2 have "car_pos st2 (er_player_id r) = car_pos st1 (er_player_id r)" by simp
    then show ?thesis using 0 s1(2) by (simp add: rounded_progress_def)
  next
    case (Suc k)
    then have k: "k < length rs" using that by simp
    with dist2 d show ?thesis using Suc by simp
  qed
  show ?case
    unfolding eq using inv2 mono other ok2 s1(1) sand dist by simp
qed

lemma ticks_from_props:
  assumes ok: "env_ok env"
  shows "state_inv env st \<Longrightarrow>
     (\<forall>x\<in>set (ticks_from env rs k st). tick_ok env rs x)
   \<and> successively (progress_le (length rs)) (map fst (ticks_from env rs k st))
   \<and> (ticks_from env rs k st \<noteq> [] \<longrightarrow>
        (\<forall>j<length rs. rounded_progress env st (er_player_id (rs ! j))
            \<le> progress (cars (fst (hd (ticks_from env rs k st))) ! j)))
   \<and> length (ticks_from env rs k st) \<le> max_ticks - k"
proof (induction "max_ticks - k" arbitrary: k st)
  case 0
  then have "ticks_from env rs k st = []"
    by (subst ticks_from.simps) simp
  then show ?case by simp
next
  case (Suc n)
  then have lt: "k < max_ticks" by simp
  obtain st' snaps ad where cl: "cars_loop env (k + 1) rs st = (st', snaps, ad)"
    by (cases "cars_loop env (k + 1) rs st") auto
  define tk where "tk = \<lparr>tick_no = k + 1, tick_lap_count = env_lap_count env, cars = snaps\<rparr>"
  define rest where "rest = (if ad then [] else if grace_elapsed st' (k + 1) then []
                             else ticks_from env rs (k + 1) st')"
  have unfold: "ticks_from env rs k st = (tk, st') # rest"
    using lt cl by (subst ticks_from.simps) (simp add: tk_def rest_def)
  from cars_loop_props [OF ok Suc.prems cl] have
    inv': "state_inv env st'"
    and oks: "list_all2 (snap_ok env) snaps rs"
    and sand: "\<forall>j<length rs.
          rounded_progress env st (er_player_id (rs ! j)) \<le> progress (snaps ! j)
        \<and> progress (snaps ! j) \<le> rounded_progress env st' (er_player_id (rs ! j))"
    and dist: "distinct (map er_player_id rs) \<longrightarrow>
        (\<forall>j<length rs. progress (snaps ! j) = rounded_progress env st' (er_player_id (rs ! j)))"
    by blast+
  have here: "tick_ok env rs (tk, st')"
    using inv' oks sand dist by (simp add: tick_ok_def tk_def)
  have n: "n = max_ticks - (k + 1)" using Suc.hyps(2) by simp
  note IH = Suc.hyps(1) [OF n inv']
  have rest_ok: "\<forall>x\<in>set rest. tick_ok env rs x"
    using IH by (simp add: rest_def)
  have rest_succ: "successively (progress_le (length rs)) (map fst rest)"
    using IH by (simp add: rest_def)
  have rest_hd: "rest \<noteq> [] \<longrightarrow>
        (\<forall>j<length rs. rounded_progress env st' (er_player_id (rs ! j))
            \<le> progress (cars (fst (hd rest)) ! j))"
    using IH by (simp add: rest_def)
  have rest_len: "length rest \<le> max_ticks - (k + 1)"
    using IH by (simp add: rest_def)
  have link: "rest \<noteq> [] \<longrightarrow> progress_le (length rs) tk (fst (hd rest))"
    using rest_hd sand unfolding progress_le_def tk_def by fastforce
  have "successively (progress_le (length rs)) (map fst ((tk, st') # rest))"
    using rest_succ link by (cases rest) (simp_all add: successively_Cons)
  moreover have "\<forall>j<length rs. rounded_progress env st (er_player_id (rs ! j))
            \<le> progress (cars (fst (hd ((tk, st') # rest))) ! j)"
    using sand by (simp add: tk_def)
  moreover have "length ((tk, st') # rest) \<le> max_ticks - k"
    using rest_len lt by simp
  ultimately show ?case
    unfolding unfold using here rest_ok by simp
qed

subsection \<open>Initialisation\<close>

lemma init_fold_stop:
  "snd (fold (init_car g ms) rs fs) p =
     (if \<exists>r\<in>set rs. er_player_id r = p \<and> er_dnf r
      then Some (0.3 + 0.4 * shd (g p)) else snd fs p)"
  by (induction rs arbitrary: fs) (auto simp: init_car_def Let_def uniform_def)

lemma init_fold_factor:
  "\<forall>p. 0 \<le> fst fs p \<Longrightarrow> 0 \<le> fst (fold (init_car g ms) rs fs) p"
  by (induction rs arbitrary: fs) (auto simp: init_car_def Let_def)

lemma make_env_stop:
  "dnf_stop (make_env g rs laps track) p =
     (if \<exists>r\<in>set rs. er_player_id r = p \<and> er_dnf r
      then Some (0.3 + 0.4 * shd (g p)) else None)"
  by (simp add: make_env_def Let_def init_fold_stop split: prod.splits)

lemma profile_choice:
  "\<exists>prof nt. (case track of
               None \<Rightarrow> ([TOP_SPEED_FPS], 1)
             | Some tr \<Rightarrow>
                 if path_order tr \<noteq> [] then (build_speed_profile tr, length (path_order tr))
                 else ([TOP_SPEED_FPS], 1)) = (prof, nt)
     \<and> 0 < nt \<and> length prof = nt \<and> (\<forall>x\<in>set prof. 0 < x)"
proof (cases track)
  case None
  then show ?thesis using speed_constants_order by auto
next
  case (Some tr)
  show ?thesis
  proof (cases "path_order tr = []")
    case True
    then show ?thesis using Some speed_constants_order by auto
  next
    case False
    then show ?thesis
      using Some build_speed_profile_inv [of tr] by (auto simp: profile_inv_def)
  qed
qed

lemma make_env_ok:
  assumes "1 \<le> laps" and "\<forall>pid. 0 \<le> shd (g pid) \<and> shd (g pid) < 1"
  shows "env_ok (make_env g rs laps track)"
proof -
  obtain prof nt where pc: "(case track of
               None \<Rightarrow> ([TOP_SPEED_FPS], 1)
             | Some tr \<Rightarrow>
                 if path_order tr \<noteq> [] then (build_speed_profile tr, length (path_order tr))
                 else ([TOP_SPEED_FPS], 1)) = (prof, nt)"
    and nt: "0 < nt" and len: "length prof = nt" and pos: "\<forall>x\<in>set prof. 0 < x"
    using profile_choice [of track] by blast
  let ?env = "make_env g rs laps track"
  have fields: "profile ?env = prof" "n_tiles ?env = nt"
    "total_distance ?env = TILE_FEET * real nt * real_of_int laps"
    "car_factor ?env = fst (fold (init_car g (max_score rs)) rs ((\<lambda>_. 0), Map.empty))"
    by (simp_all add: make_env_def Let_def pc)
  have "0 < TILE_FEET * real nt * real_of_int laps"
    using nt assms(1) by (simp add: TILE_FEET_def)
  moreover have "\<forall>p. 0 \<le> car_factor ?env p"
    unfolding fields by (intro allI init_fold_factor) simp
  moreover have "\<forall>p f. dnf_stop ?env p = Some f \<longrightarrow> f \<le> 1"
  proof (intro allI impI)
    fix p f assume "dnf_stop ?env p = Some f"
    then have "f = 0.3 + 0.4 * shd (g p)"
      by (auto simp: make_env_stop split: if_splits)
    moreover have "shd (g p) < 1" using assms(2) by simp
    ultimately show "f \<le> 1" by simp
  qed
  ultimately show ?thesis
    unfolding env_ok_def fields using nt len pos by simp
qed

lemma init_state_inv: "env_ok env \<Longrightarrow> state_inv env init_state"
  by (simp add: state_inv_def init_state_def env_ok_def)

subsection \<open>The stream\<close>

text \<open>
  What holds of every stream, for a lap count of at least 1 and DNF draws in \<open>[0, 1)\<close>.
  The stream is produced without an error and has at most 200000 ticks. Every tick
  reports one car per result, in the order of the results, with a progress in
  \<open>[0, 1]\<close>, and from each tick to the next the progress of every entrant does not
  decrease. A DNF entrant that reports an incident reports a progress of at least its
  stop fraction \<open>0.3 + 0.4 u\<close> (with \<open>u\<close> the draw of its generator) rounded to four
  decimals. With pairwise distinct player ids, an entrant that is not a DNF and whose
  car is marked finished reports the progress 1 exactly.
\<close>

lemma tick_stream_progress:
  assumes laps: "1 \<le> lap_count"
    and draws: "\<forall>pid. 0 \<le> shd (dnf_rng pid) \<and> shd (dnf_rng pid) < 1"
  shows "\<exists>L. run_ticks dnf_rng results lap_count track = Inr L
     \<and> generate_tick_stream dnf_rng results lap_count track = Inr (map fst L)
     \<and> length L \<le> 200000
     \<and> successively (progress_le (length results)) (map fst L)
     \<and> (\<forall>x\<in>set L. \<forall>j<length results.
            car_id (cars (fst x) ! j) = er_player_id (results ! j)
          \<and> 0 \<le> progress (cars (fst x) ! j) \<and> progress (cars (fst x) ! j) \<le> 1
          \<and> (er_dnf (results ! j) \<and> incident (cars (fst x) ! j) \<noteq> None \<longrightarrow>
                py_round 4 (0.3 + 0.4 * shd (dnf_rng (er_player_id (results ! j))))
                  \<le> progress (cars (fst x) ! j))
          \<and> (distinct (map er_player_id results) \<and> \<not> er_dnf (results ! j)
               \<and> car_finished (snd x) (er_player_id (results ! j)) \<noteq> None \<longrightarrow>
                progress (cars (fst x) ! j) = 1))"
proof (cases "results = []")
  case True
  then show ?thesis
    by (simp add: run_ticks_def generate_tick_stream_def)
next
  case False
  define env where "env = make_env dnf_rng results lap_count track"
  define L where "L = ticks_from env results 0 init_state"
  have ok: "env_ok env"
    unfolding env_def using laps draws by (rule make_env_ok)
  then have T: "total_distance env \<noteq> 0" by (simp add: env_ok_def)
  have run: "run_ticks dnf_rng results lap_count track = Inr L"
    using False T by (simp add: run_ticks_def Let_def env_def [symmetric] L_def)
  then have gen: "generate_tick_stream dnf_rng results lap_count track = Inr (map fst L)"
    by (simp add: generate_tick_stream_def)
  from ticks_from_props [OF ok init_state_inv [OF ok], of results 0] have
    all_ok: "\<forall>x\<in>set L. tick_ok env results x"
    and mono: "successively (progress_le (length results)) (map fst L)"
    and len: "length L \<le> max_ticks - 0"
    unfolding L_def by blast+
  have len': "length L \<le> 200000" using len by (simp add: max_ticks_def)
  have each: "car_id (cars (fst x) ! j) = er_player_id (results ! j)
          \<and> 0 \<le> progress (cars (fst x) ! j) \<and> progress (cars (fst x) ! j) \<le> 1
          \<and> (er_dnf (results ! j) \<and> incident (cars (fst x) ! j) \<noteq> None \<longrightarrow>
                py_round 4 (0.3 + 0.4 * shd (dnf_rng (er_player_id (results ! j))))
                  \<le> progress (cars (fst x) ! j))
          \<and> (distinct (map er_player_id results) \<and> \<not> er_dnf (results ! j)
               \<and> car_finished (snd x) (er_player_id (results ! j)) \<noteq> None \<longrightarrow>
                progress (cars (fst x) ! j) = 1)"
    if x: "x \<in> set L" and j: "j < length results" for x j
  proof -
    let ?r = "results ! j"
    let ?c = "cars (fst x) ! j"
    from all_ok x have tok: "tick_ok env results x" by blast
    then have inv: "state_inv env (snd x)"
      and la: "list_all2 (snap_ok env) (cars (fst x)) results"
      and dist: "distinct (map er_player_id results) \<longrightarrow>
           progress ?c = rounded_progress env (snd x) (er_player_id ?r)"
      using j by (simp_all add: tick_ok_def)
    have "length (cars (fst x)) = length results"
      using la by (rule list_all2_lengthD)
    with la j have sok: "snap_ok env ?c ?r"
      by (simp add: list_all2_nthD)
    have rj: "?r \<in> set results" using j by simp
    have stop_dnf: "dnf_stop env (er_player_id ?r)
        = Some (0.3 + 0.4 * shd (dnf_rng (er_player_id ?r)))" if "er_dnf ?r"
      using that rj unfolding env_def make_env_stop by auto
    have stop_none: "dnf_stop env (er_player_id ?r) = None"
      if d: "distinct (map er_player_id results)" and nd: "\<not> er_dnf ?r"
    proof -
      have "r = ?r" if "r \<in> set results" "er_player_id r = er_player_id ?r" for r
      proof -
        from that(1) obtain i where i: "i < length results" "r = results ! i"
          by (auto simp: in_set_conv_nth)
        with that(2) j have "map er_player_id results ! i = map er_player_id results ! j"
          by simp
        moreover have "i < length (map er_player_id results)"
          "j < length (map er_player_id results)"
          using i(1) j by simp_all
        ultimately have "i = j"
          using d nth_eq_iff_index_eq by blast
        with i(2) show ?thesis by simp
      qed
      with nd show ?thesis unfolding env_def make_env_stop by auto
    qed
    have a: "car_id ?c = er_player_id ?r \<and> 0 \<le> progress ?c \<and> progress ?c \<le> 1"
      using sok by (simp add: snap_ok_def)
    have b: "er_dnf ?r \<and> incident ?c \<noteq> None \<longrightarrow>
        py_round 4 (0.3 + 0.4 * shd (dnf_rng (er_player_id ?r))) \<le> progress ?c"
      using sok stop_dnf by (auto simp: snap_ok_def)
    have c: "distinct (map er_player_id results) \<and> \<not> er_dnf ?r
               \<and> car_finished (snd x) (er_player_id ?r) \<noteq> None \<longrightarrow> progress ?c = 1"
      using dist stop_none rounded_progress_finished(1) [OF ok inv] by auto
    from a b c show ?thesis by blast
  qed
  from run gen len' mono each show ?thesis by blast
qed

text \<open>
  The lemma at the stream of one DNF entrant over one lap without a track, with the stop
  fraction 0.3.
\<close>

lemma tick_stream_progress_witness:
  "(1::int) \<le> 1
   \<and> (\<forall>pid::string. 0 \<le> shd (sconst (0::real)) \<and> shd (sconst (0::real)) < 1)
   \<and> (\<exists>L. run_ticks (\<lambda>_. sconst 0) [stub_result ''a'' 0 True] 1 None = Inr L
     \<and> generate_tick_stream (\<lambda>_. sconst 0) [stub_result ''a'' 0 True] 1 None = Inr (map fst L)
     \<and> length L \<le> 200000
     \<and> successively (progress_le 1) (map fst L)
     \<and> (\<forall>x\<in>set L.
            car_id (cars (fst x) ! 0) = ''a''
          \<and> 0 \<le> progress (cars (fst x) ! 0) \<and> progress (cars (fst x) ! 0) \<le> 1
          \<and> (incident (cars (fst x) ! 0) \<noteq> None \<longrightarrow>
                py_round 4 0.3 \<le> progress (cars (fst x) ! 0))))"
proof -
  have laps: "(1::int) \<le> 1" by simp
  have draws: "\<forall>pid::string. 0 \<le> shd ((\<lambda>_. sconst (0::real)) pid)
      \<and> shd ((\<lambda>_. sconst (0::real)) pid) < 1"
    by simp
  from tick_stream_progress [OF laps draws, of "[stub_result ''a'' 0 True]" None]
  obtain L where
    "run_ticks (\<lambda>_. sconst 0) [stub_result ''a'' 0 True] 1 None = Inr L"
    "generate_tick_stream (\<lambda>_. sconst 0) [stub_result ''a'' 0 True] 1 None = Inr (map fst L)"
    "length L \<le> 200000"
    "successively (progress_le (length [stub_result ''a'' 0 True])) (map fst L)"
    and each: "\<forall>x\<in>set L. \<forall>j<length [stub_result ''a'' 0 True].
            car_id (cars (fst x) ! j) = er_player_id ([stub_result ''a'' 0 True] ! j)
          \<and> 0 \<le> progress (cars (fst x) ! j) \<and> progress (cars (fst x) ! j) \<le> 1
          \<and> (er_dnf ([stub_result ''a'' 0 True] ! j) \<and> incident (cars (fst x) ! j) \<noteq> None \<longrightarrow>
                py_round 4 (0.3 + 0.4 * shd ((\<lambda>_. sconst (0::real)) (er_player_id ([stub_result ''a'' 0 True] ! j))))
                  \<le> progress (cars (fst x) ! j))
          \<and> (distinct (map er_player_id [stub_result ''a'' 0 True])
               \<and> \<not> er_dnf ([stub_result ''a'' 0 True] ! j)
               \<and> car_finished (snd x) (er_player_id ([stub_result ''a'' 0 True] ! j)) \<noteq> None \<longrightarrow>
                progress (cars (fst x) ! j) = 1)"
    by blast
  moreover have "\<forall>x\<in>set L.
            car_id (cars (fst x) ! 0) = ''a''
          \<and> 0 \<le> progress (cars (fst x) ! 0) \<and> progress (cars (fst x) ! 0) \<le> 1
          \<and> (incident (cars (fst x) ! 0) \<noteq> None \<longrightarrow>
                py_round 4 0.3 \<le> progress (cars (fst x) ! 0))"
  proof
    fix x assume "x \<in> set L"
    with each have "car_id (cars (fst x) ! 0) = er_player_id ([stub_result ''a'' 0 True] ! 0)
          \<and> 0 \<le> progress (cars (fst x) ! 0) \<and> progress (cars (fst x) ! 0) \<le> 1
          \<and> (er_dnf ([stub_result ''a'' 0 True] ! 0) \<and> incident (cars (fst x) ! 0) \<noteq> None \<longrightarrow>
                py_round 4 (0.3 + 0.4 * shd ((\<lambda>_. sconst (0::real)) (er_player_id ([stub_result ''a'' 0 True] ! 0))))
                  \<le> progress (cars (fst x) ! 0))"
      by simp
    then show "car_id (cars (fst x) ! 0) = ''a''
          \<and> 0 \<le> progress (cars (fst x) ! 0) \<and> progress (cars (fst x) ! 0) \<le> 1
          \<and> (incident (cars (fst x) ! 0) \<noteq> None \<longrightarrow>
                py_round 4 0.3 \<le> progress (cars (fst x) ! 0))"
      by (simp add: stub_result_def)
  qed
  ultimately show ?thesis by simp
qed

lemmas tick_eval = generate_tick_stream_def run_ticks_def make_env_def max_score_def init_car_def
  init_state_def uniform_def stub_result_def ticks_from.simps car_tick_def at_dnf_stop_def
  new_velocity_def py_fmod_def py_int_def grace_elapsed_def max_ticks_def dt_def
  RACE_TICK_INTERVAL_MS_def TILE_FEET_def TOP_SPEED_FPS_def MPH_TO_FPS_def ACCEL_FPS2_def
  BRAKE_FPS2_def FT_PER_SEC_PER_G_def TRAILING_GRACE_TICKS_def Let_def py_round_def

text \<open>
  Claim C7. The progress of an entrant does not decrease, and the last progress reported
  for a DNF entrant has to be exactly its stop fraction. The code does not stop the car
  there. Below, one DNF entrant runs one lap without a track (total distance 30 feet)
  with the stop fraction 0.3, that is 9 feet. After tick 16 the car has covered 8.41
  feet, after tick 17 it has covered 9.46 feet; at tick 18 the test
  \<open>car_pos >= stop_dist\<close> succeeds and the car is frozen where it stands, without being
  set back to the stop point as a finishing car is set to the total distance. The stream
  ends with the progress 0.3154, not 0.3.
\<close>

theorem dnf_car_stops_past_stop_fraction:
  "fst (uniform 0.3 0.7 (sconst 0)) = 0.3
   \<and> map_sum id
       (\<lambda>ts. (length ts,
              map (\<lambda>t. (tick_no t, map (\<lambda>c. (progress c, incident c)) (cars t))) (drop 15 ts)))
       (generate_tick_stream (\<lambda>_. sconst 0) [stub_result ''a'' 0 True] 1 None)
     = Inr (18, [(16, [(0.2803, None)]),
                 (17, [(0.3154, None)]),
                 (18, [(0.3154, Some ''dnf_start'')])])"
  by (simp add: tick_eval)

end
